theory Spec2Isabelle
  imports Main "HOL-Library.Word"
begin

section \<open>Bytes, Python slices and \<open>struct.unpack\<close>\<close>

text \<open>
  A Python \<open>bytes\<close> object is a list of 8-bit words. Integers decoded from it are Python
  integers (unbounded); every one the parser handles is non-negative, so offsets, sizes
  and addresses are natural numbers.
\<close>

type_synonym byte = "8 word"

text \<open>A bytes literal such as \<open>b"UFD"\<close>, written \<open>ascii ''UFD''\<close>.\<close>

definition ascii :: "string \<Rightarrow> byte list" where
  "ascii s = map of_char s"

text \<open>
  Python slicing \<open>xs[lo:hi]\<close>: an omitted bound is \<open>None\<close>, a negative bound counts from
  the end, and both bounds are clamped to the length; a slice never raises.
\<close>

definition clamp_index :: "nat \<Rightarrow> int \<Rightarrow> nat" where
  "clamp_index n i = (if i < 0 then nat (max 0 (int n + i)) else min n (nat i))"

definition py_slice :: "'a list \<Rightarrow> int option \<Rightarrow> int option \<Rightarrow> 'a list" where
  "py_slice xs lo hi =
     (let n = length xs;
          a = (case lo of None \<Rightarrow> 0 | Some i \<Rightarrow> clamp_index n i);
          b = (case hi of None \<Rightarrow> n | Some j \<Rightarrow> clamp_index n j)
      in drop a (take b xs))"

text \<open>
  The failures of the parser. The three \<open>ValueError\<close>s it raises itself are kept apart
  by what they report:
  \<^item> \<open>TooSmall\<close>: "File too small to contain DFU suffix" and "File too small to contain
    DFU prefix";
  \<^item> \<open>InvalidSignature\<close>: "Invalid DFU signature";
  \<^item> \<open>InvalidTargetSignature off\<close>: "Invalid target signature at offset \<open>off\<close>".
  \<open>StructError\<close> is the \<open>struct.error\<close> of \<open>struct.unpack\<close> on a buffer of the wrong
  size, \<open>IndexError\<close> the one of indexing past the end.
\<close>

datatype error =
    TooSmall
  | InvalidSignature
  | InvalidTargetSignature nat
  | StructError
  | IndexError

text \<open>Indexing \<open>xs[i]\<close> with a non-negative index; a byte read this way is an integer.\<close>

definition index :: "byte list \<Rightarrow> nat \<Rightarrow> error + nat" where
  "index xs i = (if i < length xs then Inr (unat (xs ! i)) else Inl IndexError)"

text \<open>The little-endian value of a byte string.\<close>

fun le_value :: "byte list \<Rightarrow> nat" where
  "le_value [] = 0"
| "le_value (b # bs) = unat b + 256 * le_value bs"

text \<open>
  \<open>struct.unpack("<H", bs)[0]\<close> and \<open>struct.unpack("<I", bs)[0]\<close>: the buffer must hold
  exactly 2 (4) bytes.
\<close>

definition unpack_H :: "byte list \<Rightarrow> error + nat" where
  "unpack_H bs = (if length bs = 2 then Inr (le_value bs) else Inl StructError)"

definition unpack_I :: "byte list \<Rightarrow> error + nat" where
  "unpack_I bs = (if length bs = 4 then Inr (le_value bs) else Inl StructError)"

text \<open>Sequencing of steps that may raise.\<close>

definition ebind :: "error + 'a \<Rightarrow> ('a \<Rightarrow> error + 'b) \<Rightarrow> error + 'b" where
  "ebind r f = (case r of Inl e \<Rightarrow> Inl e | Inr x \<Rightarrow> f x)"

section \<open>The parser\<close>

definition DFU_SUFFIX_LENGTH :: nat where
  "DFU_SUFFIX_LENGTH = 16"

definition DFU_PREFIX_LENGTH :: nat where
  "DFU_PREFIX_LENGTH = 11"

text \<open>
  The object: the buffer and a list \<open>targets\<close> that \<open>__init__\<close> sets to \<open>[]\<close>. No method
  assigns to a field of \<open>self\<close>, so a method is a function of \<open>self\<close> that returns no new
  state.
\<close>

record DFUParser =
  dfu_data :: "byte list"
  targets :: "(nat \<times> byte list) list"

definition init :: "byte list \<Rightarrow> DFUParser" where
  "init d = \<lparr>dfu_data = d, targets = []\<rparr>"

record suffix =
  bcdDevice :: nat
  idProduct :: nat
  idVendor :: nat
  bcdDFU :: nat
  ucDfuSignature :: "byte list"
  bLength :: nat
  dwCRC :: nat

definition parse_suffix :: "DFUParser \<Rightarrow> error + suffix" where
  "parse_suffix self =
     (if length (dfu_data self) < DFU_SUFFIX_LENGTH then Inl TooSmall
      else
        let suffix_data = py_slice (dfu_data self) (Some (- int DFU_SUFFIX_LENGTH)) None in
        ebind (unpack_H (py_slice suffix_data (Some 0) (Some 2))) (\<lambda>dev.
        ebind (unpack_H (py_slice suffix_data (Some 2) (Some 4))) (\<lambda>prod.
        ebind (unpack_H (py_slice suffix_data (Some 4) (Some 6))) (\<lambda>vend.
        ebind (unpack_H (py_slice suffix_data (Some 6) (Some 8))) (\<lambda>dfu.
        ebind (index suffix_data 11) (\<lambda>len.
        ebind (unpack_I (py_slice suffix_data (Some 12) (Some 16))) (\<lambda>crc.
          let suffix = \<lparr>bcdDevice = dev, idProduct = prod, idVendor = vend, bcdDFU = dfu,
                         ucDfuSignature = py_slice suffix_data (Some 8) (Some 11),
                         bLength = len, dwCRC = crc\<rparr>
          in if ucDfuSignature suffix \<noteq> ascii ''UFD'' then Inl InvalidSignature
             else Inr suffix)))))))"

record prefix =
  szSignature :: "byte list"
  bVersion :: nat
  dwImageSize :: nat
  bTargets :: nat

text \<open>\<open>parse_prefix\<close> returns \<open>None\<close> where the buffer does not start with the DfuSe magic.\<close>

definition parse_prefix :: "DFUParser \<Rightarrow> error + prefix option" where
  "parse_prefix self =
     (if length (dfu_data self) < DFU_PREFIX_LENGTH + DFU_SUFFIX_LENGTH then Inl TooSmall
      else
        let prefix_data = py_slice (dfu_data self) None (Some (int DFU_PREFIX_LENGTH)) in
        ebind (index prefix_data 5) (\<lambda>ver.
        ebind (unpack_I (py_slice prefix_data (Some 6) (Some 10))) (\<lambda>img.
        ebind (index prefix_data 10) (\<lambda>cnt.
          let prefix = \<lparr>szSignature = py_slice prefix_data (Some 0) (Some 5), bVersion = ver,
                         dwImageSize = img, bTargets = cnt\<rparr>
          in if szSignature prefix \<noteq> ascii ''DfuSe'' then Inr None
             else Inr (Some prefix)))))"

definition extract_raw_binary :: "DFUParser \<Rightarrow> byte list" where
  "extract_raw_binary self = py_slice (dfu_data self) None (Some (- int DFU_SUFFIX_LENGTH))"

text \<open>\<open>bs.rstrip(b"\x00")\<close>: the trailing NUL bytes removed.\<close>

definition rstrip_nul :: "byte list \<Rightarrow> byte list" where
  "rstrip_nul bs = rev (dropWhile (\<lambda>b. b = 0) (rev bs))"

text \<open>
  The inner loop of \<open>extract_dfuse_targets\<close>, \<open>for j in range(nb_elements)\<close>, with the
  iterations left to run as the first argument after the buffer. It reads and updates
  the local variables \<open>offset\<close> and \<open>targets\<close>. (The loop also collects the payloads of one
  target in a local \<open>element_data\<close> that nothing reads; it is left out.)
\<close>

fun elements_loop ::
  "byte list \<Rightarrow> nat \<Rightarrow> nat \<Rightarrow> (nat \<times> byte list) list \<Rightarrow> error + (nat \<times> (nat \<times> byte list) list)"
where
  "elements_loop d 0 offset tgts = Inr (offset, tgts)"
| "elements_loop d (Suc j) offset tgts =
     ebind (unpack_I (py_slice d (Some (int offset)) (Some (int (offset + 4))))) (\<lambda>element_addr.
     ebind (unpack_I (py_slice d (Some (int (offset + 4))) (Some (int (offset + 8))))) (\<lambda>element_size.
       let offset = offset + 8;
           data = py_slice d (Some (int offset)) (Some (int (offset + element_size)));
           offset = offset + element_size
       in elements_loop d j offset (tgts @ [(element_addr, data)])))"

text \<open>The outer loop, \<open>for i in range(prefix["bTargets"])\<close>.\<close>

fun targets_loop ::
  "byte list \<Rightarrow> nat \<Rightarrow> nat \<Rightarrow> (nat \<times> byte list) list \<Rightarrow> error + (nat \<times> byte list) list"
where
  "targets_loop d 0 offset tgts = Inr tgts"
| "targets_loop d (Suc i) offset tgts =
     (let target_prefix = py_slice d (Some (int offset)) (Some (int (offset + 274)));
          signature = py_slice target_prefix (Some 0) (Some 6)
      in if signature \<noteq> ascii ''Target'' then Inl (InvalidTargetSignature offset)
         else
           ebind (index target_prefix 6) (\<lambda>alternate_setting.
             let target_name = rstrip_nul (py_slice target_prefix (Some 11) (Some 266)) in
             ebind (unpack_I (py_slice target_prefix (Some 266) (Some 270))) (\<lambda>target_size.
             ebind (unpack_I (py_slice target_prefix (Some 270) (Some 274))) (\<lambda>nb_elements.
             ebind (elements_loop d nb_elements (offset + 274) tgts) (\<lambda>(offset, tgts).
               targets_loop d i offset tgts)))))"

definition extract_dfuse_targets :: "DFUParser \<Rightarrow> error + (nat \<times> byte list) list" where
  "extract_dfuse_targets self =
     ebind (parse_prefix self) (\<lambda>prefix.
       case prefix of
         None \<Rightarrow> Inr []
       | Some prefix \<Rightarrow> targets_loop (dfu_data self) (bTargets prefix) DFU_PREFIX_LENGTH [])"

definition "extract" :: "DFUParser \<Rightarrow> error + (nat \<times> byte list) list" where
  "extract self =
     (if py_slice (dfu_data self) None (Some 5) = ascii ''DfuSe'' then extract_dfuse_targets self
      else Inr [(0, extract_raw_binary self)])"

section \<open>The DfuSe layout\<close>

text \<open>
  The byte layout of a DfuSe file as the format table gives it, written as an encoder, to
  state what the parser returns on a well-formed file. \<open>pack_I\<close> is
  \<open>struct.pack("<I", n)\<close>: four bytes, least significant first.
\<close>

definition pack_I :: "nat \<Rightarrow> byte list" where
  "pack_I n = [of_nat n, of_nat (n div 256), of_nat (n div 65536), of_nat (n div 16777216)]"

text \<open>An element: address, payload size, payload.\<close>

definition element_bytes :: "nat \<times> byte list \<Rightarrow> byte list" where
  "element_bytes e = pack_I (fst e) @ pack_I (length (snd e)) @ snd e"

text \<open>
  A target: the 274-byte header (signature, alternate setting, 4 reserved bytes, 255 name
  bytes, size, element count) and its elements.
\<close>

record target_image =
  alt_setting :: byte
  reserved :: "byte list"
  name :: "byte list"
  size_field :: nat
  elements :: "(nat \<times> byte list) list"

definition target_bytes :: "target_image \<Rightarrow> byte list" where
  "target_bytes t =
     ascii ''Target'' @ [alt_setting t] @ reserved t @ name t @ pack_I (size_field t)
     @ pack_I (length (elements t)) @ concat (map element_bytes (elements t))"

text \<open>The prefix with target count \<open>cnt\<close>, followed by the bytes \<open>body\<close>.\<close>

definition dfuse_bytes :: "byte \<Rightarrow> nat \<Rightarrow> nat \<Rightarrow> byte list \<Rightarrow> byte list" where
  "dfuse_bytes version image_size cnt body =
     ascii ''DfuSe'' @ [version] @ pack_I image_size @ [of_nat cnt] @ body"

text \<open>The fields fit their widths: addresses, sizes and counts are 32-bit values.\<close>

definition well_formed_element :: "nat \<times> byte list \<Rightarrow> bool" where
  "well_formed_element e = (fst e < 2 ^ 32 \<and> length (snd e) < 2 ^ 32)"

definition well_formed_target :: "target_image \<Rightarrow> bool" where
  "well_formed_target t =
     (length (reserved t) = 4 \<and> length (name t) = 255 \<and> length (elements t) < 2 ^ 32 \<and>
      list_all well_formed_element (elements t))"

text \<open>
  The offsets at which the outer loop of \<open>extract_dfuse_targets\<close> reads a target header:
  the same walk as \<open>targets_loop\<close>, recording the offset of each header it reaches.
\<close>

fun header_offsets_loop :: "byte list \<Rightarrow> nat \<Rightarrow> nat \<Rightarrow> nat list" where
  "header_offsets_loop d 0 offset = []"
| "header_offsets_loop d (Suc i) offset =
     offset #
     (let target_prefix = py_slice d (Some (int offset)) (Some (int (offset + 274)))
      in if py_slice target_prefix (Some 0) (Some 6) \<noteq> ascii ''Target'' then []
         else
           case ebind (index target_prefix 6) (\<lambda>alternate_setting.
                ebind (unpack_I (py_slice target_prefix (Some 266) (Some 270))) (\<lambda>target_size.
                ebind (unpack_I (py_slice target_prefix (Some 270) (Some 274))) (\<lambda>nb_elements.
                  elements_loop d nb_elements (offset + 274) []))) of
             Inl e \<Rightarrow> []
           | Inr (offset, tgts) \<Rightarrow> header_offsets_loop d i offset)"

definition target_header_offsets :: "DFUParser \<Rightarrow> nat list" where
  "target_header_offsets self =
     (case parse_prefix self of
        Inr (Some prefix) \<Rightarrow>
          header_offsets_loop (dfu_data self) (bTargets prefix) DFU_PREFIX_LENGTH
      | _ \<Rightarrow> [])"

text \<open>
  The positions of a DfuSe buffer that hold metadata only: the version and image size of
  the prefix (bytes 5..9) and, in each target header the walk reads, the alternate setting,
  the reserved bytes, the name and the size (header offsets 6..269). A buffer that does
  not start with the DfuSe magic has none: all of it is payload or suffix.
\<close>

definition metadata_only :: "DFUParser \<Rightarrow> nat \<Rightarrow> bool" where
  "metadata_only self i =
     (py_slice (dfu_data self) None (Some 5) = ascii ''DfuSe'' \<and>
      ((5 \<le> i \<and> i < 10) \<or>
       list_ex (\<lambda>off. off + 6 \<le> i \<and> i < off + 270) (target_header_offsets self)))"

section \<open>Facts about slices and decoding\<close>

lemma py_slice_nonneg:
  "0 \<le> i \<Longrightarrow> 0 \<le> j \<Longrightarrow> py_slice xs (Some i) (Some j) = drop (nat i) (take (nat j) xs)"
  by (simp add: py_slice_def clamp_index_def Let_def min_def)

lemma py_slice_to_nonneg:
  "0 \<le> j \<Longrightarrow> py_slice xs None (Some j) = take (nat j) xs"
  by (simp add: py_slice_def clamp_index_def Let_def min_def)

lemma clamp_index_neg: "i < 0 \<Longrightarrow> clamp_index n i = n - nat (- i)"
  unfolding clamp_index_def max_def by (simp split: if_splits) linarith

lemma py_slice_from_neg:
  "i < 0 \<Longrightarrow> py_slice xs (Some i) None = drop (length xs - nat (- i)) xs"
  by (simp add: py_slice_def clamp_index_neg Let_def)

lemma py_slice_to_neg:
  "j < 0 \<Longrightarrow> py_slice xs None (Some j) = take (length xs - nat (- j)) xs"
  by (simp add: py_slice_def clamp_index_neg Let_def)

lemma le_value_2:
  assumes "length bs = 2"
  shows "le_value bs = unat (bs ! 0) + 256 * unat (bs ! 1)"
proof -
  have "length bs = Suc (Suc 0)" using assms by simp
  then obtain a b where "bs = [a, b]"
    by (auto simp: length_Suc_conv)
  then show ?thesis by simp
qed

lemma le_value_4:
  assumes "length bs = 4"
  shows "le_value bs = unat (bs ! 0) + 256 * unat (bs ! 1) + 65536 * unat (bs ! 2)
                 + 16777216 * unat (bs ! 3)"
proof -
  have "length bs = Suc (Suc (Suc (Suc 0)))" using assms by simp
  then obtain a b c d where "bs = [a, b, c, d]"
    by (auto simp: length_Suc_conv)
  then show ?thesis by simp
qed

lemma unpack_H_slice:
  "0 \<le> i \<Longrightarrow> nat i + 2 \<le> length xs \<Longrightarrow>
   unpack_H (py_slice xs (Some i) (Some (i + 2))) =
     Inr (unat (xs ! nat i) + 256 * unat (xs ! (nat i + 1)))"
  by (simp add: unpack_H_def py_slice_nonneg le_value_2 nat_add_distrib)

lemma unpack_I_slice:
  "0 \<le> i \<Longrightarrow> nat i + 4 \<le> length xs \<Longrightarrow>
   unpack_I (py_slice xs (Some i) (Some (i + 4))) =
     Inr (unat (xs ! nat i) + 256 * unat (xs ! (nat i + 1)) + 65536 * unat (xs ! (nat i + 2))
          + 16777216 * unat (xs ! (nat i + 3)))"
  by (simp add: unpack_I_def py_slice_nonneg le_value_4 nat_add_distrib)

lemma ebind_Inr: "ebind (Inr x) f = f x"
  by (simp add: ebind_def)

lemma ebind_Inl: "ebind (Inl e) f = Inl e"
  by (simp add: ebind_def)

section \<open>The suffix decoder\<close>

text \<open>
  C5. With fewer than 16 bytes \<open>parse_suffix\<close> raises the "too small" error; with 16 bytes
  or more it never raises that error.
\<close>

theorem parse_suffix_TooSmall_iff:
  "(length (dfu_data self) < 16 \<longrightarrow> parse_suffix self = Inl TooSmall) \<and>
   (16 \<le> length (dfu_data self) \<longrightarrow> parse_suffix self \<noteq> Inl TooSmall)"
  by (auto simp: parse_suffix_def DFU_SUFFIX_LENGTH_def Let_def ebind_def unpack_H_def
      unpack_I_def index_def py_slice_nonneg py_slice_from_neg)

theorem parse_suffix_TooSmall_iff_witness:
  "parse_suffix (init []) = Inl TooSmall \<and>
   parse_suffix (init (replicate 16 0)) \<noteq> Inl TooSmall"
  using parse_suffix_TooSmall_iff [of "init []"]
    parse_suffix_TooSmall_iff [of "init (replicate 16 0)"]
  by (simp add: init_def)

text \<open>
  C6. On a buffer of at least 16 bytes, with \<open>s\<close> its last 16 bytes: if bytes 8..10 of \<open>s\<close>
  are not "UFD", \<open>parse_suffix\<close> raises the invalid-signature error; if they are, it returns
  the suffix record, whose \<open>bcdDevice\<close>, \<open>idProduct\<close>, \<open>idVendor\<close> and \<open>bcdDFU\<close> are the
  little-endian 16-bit values at bytes 0, 2, 4 and 6 of \<open>s\<close>, \<open>bLength\<close> is byte 11 and
  \<open>dwCRC\<close> the little-endian 32-bit value at bytes 12..15. The method is a function of the
  buffer: it changes no state.
\<close>

theorem parse_suffix_signature:
  assumes "16 \<le> length (dfu_data self)"
  shows "let s = drop (length (dfu_data self) - 16) (dfu_data self) in
     (take 3 (drop 8 s) \<noteq> ascii ''UFD'' \<longrightarrow> parse_suffix self = Inl InvalidSignature) \<and>
     (take 3 (drop 8 s) = ascii ''UFD'' \<longrightarrow>
        parse_suffix self = Inr \<lparr>
          bcdDevice = unat (s ! 0) + 256 * unat (s ! 1),
          idProduct = unat (s ! 2) + 256 * unat (s ! 3),
          idVendor = unat (s ! 4) + 256 * unat (s ! 5),
          bcdDFU = unat (s ! 6) + 256 * unat (s ! 7),
          ucDfuSignature = ascii ''UFD'',
          bLength = unat (s ! 11),
          dwCRC = unat (s ! 12) + 256 * unat (s ! 13) + 65536 * unat (s ! 14)
                  + 16777216 * unat (s ! 15)\<rparr>)"
proof -
  define s where "s = drop (length (dfu_data self) - 16) (dfu_data self)"
  have len: "length s = 16" using assms by (simp add: s_def)
  have ps: "py_slice (dfu_data self) (Some (- int DFU_SUFFIX_LENGTH)) None = s"
    by (simp add: s_def DFU_SUFFIX_LENGTH_def py_slice_from_neg)
  have big: "\<not> length (dfu_data self) < DFU_SUFFIX_LENGTH"
    using assms by (simp add: DFU_SUFFIX_LENGTH_def)
  have h0: "unpack_H (py_slice s (Some 0) (Some 2)) = Inr (unat (s ! 0) + 256 * unat (s ! 1))"
    using unpack_H_slice [of 0 s] len by simp
  have h2: "unpack_H (py_slice s (Some 2) (Some 4)) = Inr (unat (s ! 2) + 256 * unat (s ! 3))"
    using unpack_H_slice [of 2 s] len by simp
  have h4: "unpack_H (py_slice s (Some 4) (Some 6)) = Inr (unat (s ! 4) + 256 * unat (s ! 5))"
    using unpack_H_slice [of 4 s] len by simp
  have h6: "unpack_H (py_slice s (Some 6) (Some 8)) = Inr (unat (s ! 6) + 256 * unat (s ! 7))"
    using unpack_H_slice [of 6 s] len by simp
  have i11: "index s 11 = Inr (unat (s ! 11))"
    using len by (simp add: index_def)
  have c12: "unpack_I (py_slice s (Some 12) (Some 16)) =
      Inr (unat (s ! 12) + 256 * unat (s ! 13) + 65536 * unat (s ! 14) + 16777216 * unat (s ! 15))"
    using unpack_I_slice [of 12 s] len by simp
  have sig: "py_slice s (Some 8) (Some 11) = take 3 (drop 8 s)"
    by (simp add: py_slice_nonneg drop_take)
  have eq: "parse_suffix self =
      (if take 3 (drop 8 s) \<noteq> ascii ''UFD'' then Inl InvalidSignature
       else Inr \<lparr>
          bcdDevice = unat (s ! 0) + 256 * unat (s ! 1),
          idProduct = unat (s ! 2) + 256 * unat (s ! 3),
          idVendor = unat (s ! 4) + 256 * unat (s ! 5),
          bcdDFU = unat (s ! 6) + 256 * unat (s ! 7),
          ucDfuSignature = take 3 (drop 8 s),
          bLength = unat (s ! 11),
          dwCRC = unat (s ! 12) + 256 * unat (s ! 13) + 65536 * unat (s ! 14)
                  + 16777216 * unat (s ! 15)\<rparr>)"
    unfolding parse_suffix_def
    by (simp only: big if_False Let_def ps h0 h2 h4 h6 i11 c12 sig ebind_Inr suffix.simps)
  show ?thesis
    unfolding s_def [symmetric] Let_def eq by simp
qed

theorem parse_suffix_signature_witness:
  "parse_suffix (init [0x00, 0x02, 0x11, 0xDF, 0x83, 0x04, 0x1A, 0x01,
                       0x55, 0x46, 0x45, 0x10, 0x78, 0x56, 0x34, 0x12]) = Inl InvalidSignature \<and>
   parse_suffix (init [0x00, 0x02, 0x11, 0xDF, 0x83, 0x04, 0x1A, 0x01,
                       0x55, 0x46, 0x44, 0x10, 0x78, 0x56, 0x34, 0x12]) =
     Inr \<lparr>bcdDevice = 0x0200, idProduct = 0xDF11, idVendor = 0x0483, bcdDFU = 0x011A,
          ucDfuSignature = ascii ''UFD'', bLength = 16, dwCRC = 0x12345678\<rparr>"
  using parse_suffix_signature [of "init [0x00, 0x02, 0x11, 0xDF, 0x83, 0x04, 0x1A, 0x01,
                       0x55, 0x46, 0x45, 0x10, 0x78, 0x56, 0x34, 0x12]"]
    parse_suffix_signature [of "init [0x00, 0x02, 0x11, 0xDF, 0x83, 0x04, 0x1A, 0x01,
                       0x55, 0x46, 0x44, 0x10, 0x78, 0x56, 0x34, 0x12]"]
  by (simp add: init_def ascii_def Let_def)

section \<open>The prefix decoder\<close>

lemma parse_prefix_eq:
  assumes "27 \<le> length (dfu_data self)"
  shows "parse_prefix self =
      (if take 5 (dfu_data self) \<noteq> ascii ''DfuSe'' then Inr None
       else Inr (Some \<lparr>szSignature = take 5 (dfu_data self),
              bVersion = unat (dfu_data self ! 5),
              dwImageSize = unat (dfu_data self ! 6) + 256 * unat (dfu_data self ! 7)
                + 65536 * unat (dfu_data self ! 8) + 16777216 * unat (dfu_data self ! 9),
              bTargets = unat (dfu_data self ! 10)\<rparr>))"
proof -
  define p where "p = take 11 (dfu_data self)"
  have len: "length p = 11" using assms by (simp add: p_def)
  have ps: "py_slice (dfu_data self) None (Some (int DFU_PREFIX_LENGTH)) = p"
    by (simp add: p_def DFU_PREFIX_LENGTH_def py_slice_to_nonneg)
  have big: "\<not> length (dfu_data self) < DFU_PREFIX_LENGTH + DFU_SUFFIX_LENGTH"
    using assms by (simp add: DFU_PREFIX_LENGTH_def DFU_SUFFIX_LENGTH_def)
  have i5: "index p 5 = Inr (unat (dfu_data self ! 5))"
    using len by (simp add: index_def p_def)
  have i10: "index p 10 = Inr (unat (dfu_data self ! 10))"
    using len by (simp add: index_def p_def)
  have u6: "unpack_I (py_slice p (Some 6) (Some 10)) =
      Inr (unat (dfu_data self ! 6) + 256 * unat (dfu_data self ! 7)
                + 65536 * unat (dfu_data self ! 8) + 16777216 * unat (dfu_data self ! 9))"
    using unpack_I_slice [of 6 p] len by (simp add: p_def)
  have sig: "py_slice p (Some 0) (Some 5) = take 5 (dfu_data self)"
    by (simp add: py_slice_nonneg p_def)
  show ?thesis
    unfolding parse_prefix_def
    by (simp only: big if_False Let_def ps i5 i10 u6 sig ebind_Inr prefix.simps)
qed

text \<open>
  C7. \<open>parse_prefix\<close> raises the too-small error on fewer than 27 bytes; on 27 bytes or
  more it returns \<open>None\<close> when the first 5 bytes are not "DfuSe", and otherwise the prefix
  record with the version from byte 5, the image size as the little-endian 32-bit value at
  bytes 6..9 and the target count from byte 10.
\<close>

theorem parse_prefix_cases:
  "(length (dfu_data self) < 27 \<longrightarrow> parse_prefix self = Inl TooSmall) \<and>
   (27 \<le> length (dfu_data self) \<and> take 5 (dfu_data self) \<noteq> ascii ''DfuSe'' \<longrightarrow>
      parse_prefix self = Inr None) \<and>
   (27 \<le> length (dfu_data self) \<and> take 5 (dfu_data self) = ascii ''DfuSe'' \<longrightarrow>
      parse_prefix self = Inr (Some \<lparr>szSignature = ascii ''DfuSe'',
              bVersion = unat (dfu_data self ! 5),
              dwImageSize = unat (dfu_data self ! 6) + 256 * unat (dfu_data self ! 7)
                + 65536 * unat (dfu_data self ! 8) + 16777216 * unat (dfu_data self ! 9),
              bTargets = unat (dfu_data self ! 10)\<rparr>))"
proof (intro conjI impI)
  assume "length (dfu_data self) < 27"
  then show "parse_prefix self = Inl TooSmall"
    by (simp add: parse_prefix_def DFU_PREFIX_LENGTH_def DFU_SUFFIX_LENGTH_def)
next
  assume "27 \<le> length (dfu_data self) \<and> take 5 (dfu_data self) \<noteq> ascii ''DfuSe''"
  then show "parse_prefix self = Inr None"
    by (simp add: parse_prefix_eq)
next
  assume "27 \<le> length (dfu_data self) \<and> take 5 (dfu_data self) = ascii ''DfuSe''"
  then show "parse_prefix self = Inr (Some \<lparr>szSignature = ascii ''DfuSe'',
              bVersion = unat (dfu_data self ! 5),
              dwImageSize = unat (dfu_data self ! 6) + 256 * unat (dfu_data self ! 7)
                + 65536 * unat (dfu_data self ! 8) + 16777216 * unat (dfu_data self ! 9),
              bTargets = unat (dfu_data self ! 10)\<rparr>)"
    by (simp add: parse_prefix_eq)
qed

theorem parse_prefix_cases_witness:
  "parse_prefix (init (ascii ''DfuSe'')) = Inl TooSmall \<and>
   parse_prefix (init (ascii ''Hello'' @ replicate 22 0)) = Inr None \<and>
   parse_prefix (init (ascii ''DfuSe'' @ [0x01, 0x78, 0x56, 0x34, 0x12, 0x02] @ replicate 16 0)) =
     Inr (Some \<lparr>szSignature = ascii ''DfuSe'', bVersion = 1, dwImageSize = 0x12345678,
                bTargets = 2\<rparr>)"
  using parse_prefix_cases [of "init (ascii ''DfuSe'')"]
    parse_prefix_cases [of "init (ascii ''Hello'' @ replicate 22 0)"]
    parse_prefix_cases [of "init (ascii ''DfuSe'' @ [0x01, 0x78, 0x56, 0x34, 0x12, 0x02] @ replicate 16 0)"]
  by (simp add: init_def ascii_def)

section \<open>The dispatcher and the plain path\<close>

lemma extract_raw_binary_eq:
  "extract_raw_binary self = take (length (dfu_data self) - 16) (dfu_data self)"
  by (simp add: extract_raw_binary_def DFU_SUFFIX_LENGTH_def py_slice_to_neg)

lemma extract_not_DfuSe:
  "take 5 (dfu_data self) \<noteq> ascii ''DfuSe'' \<Longrightarrow>
   extract self = Inr [(0, take (length (dfu_data self) - 16) (dfu_data self))]"
  by (simp add: extract_def py_slice_to_nonneg extract_raw_binary_eq)

lemma extract_DfuSe:
  "take 5 (dfu_data self) = ascii ''DfuSe'' \<Longrightarrow> extract self = extract_dfuse_targets self"
  by (simp add: extract_def py_slice_to_nonneg)

text \<open>
  C1. On a buffer of length \<open>L \<ge> 16\<close> whose first 5 bytes are not "DfuSe", \<open>extract\<close> returns
  exactly one pair: address 0 with the first \<open>L - 16\<close> bytes of the buffer.
\<close>

theorem extract_plain:
  assumes "16 \<le> length (dfu_data self)" and "take 5 (dfu_data self) \<noteq> ascii ''DfuSe''"
  shows "extract self = Inr [(0, take (length (dfu_data self) - 16) (dfu_data self))]"
  using assms(2) by (rule extract_not_DfuSe)

theorem extract_plain_witness:
  "extract (init ([1, 2, 3, 4, 5, 6] @ replicate 16 0)) = Inr [(0, [1, 2, 3, 4, 5, 6])]"
  using extract_plain [of "init ([1, 2, 3, 4, 5, 6] @ replicate 16 0)"]
  by (simp add: init_def ascii_def)

text \<open>
  C9. On the plain path \<open>extract\<close> validates nothing: whatever the length and the trailing
  bytes of a buffer that does not start with "DfuSe", it returns the single pair of
  address 0 and the first \<open>max 0 (L - 16)\<close> bytes; on 16 bytes or fewer the payload is empty.
\<close>

theorem extract_plain_no_validation:
  assumes "take 5 (dfu_data self) \<noteq> ascii ''DfuSe''"
  shows "extract self =
           Inr [(0, take (nat (max 0 (int (length (dfu_data self)) - 16))) (dfu_data self))] \<and>
         (length (dfu_data self) \<le> 16 \<longrightarrow> extract self = Inr [(0, [])])"
proof -
  have "nat (max 0 (int (length (dfu_data self)) - 16)) = length (dfu_data self) - 16"
    by simp
  then show ?thesis
    using extract_not_DfuSe [OF assms] by simp
qed

theorem extract_plain_no_validation_witness:
  "extract (init [1, 2, 3]) = Inr [(0, [])] \<and>
   extract (init ([1, 2, 3, 4, 5, 6] @ replicate 16 0)) = Inr [(0, [1, 2, 3, 4, 5, 6])]"
  using extract_plain_no_validation [of "init [1, 2, 3]"]
    extract_plain_no_validation [of "init ([1, 2, 3, 4, 5, 6] @ replicate 16 0)"]
  by (simp add: init_def ascii_def)

section \<open>The walk over encoded targets\<close>

lemma py_slice_window:
  "py_slice d (Some (int a)) (Some (int (a + n))) = take n (drop a d)"
proof -
  have "py_slice d (Some (int a)) (Some (int (a + n))) = drop a (take (a + n) d)"
    using py_slice_nonneg [of "int a" "int (a + n)" d] by (simp del: of_nat_add)
  then show ?thesis by (simp add: drop_take)
qed

lemma length_pack_I: "length (pack_I n) = 4"
  by (simp add: pack_I_def)

lemma unat_byte_of_nat: "unat (of_nat n :: byte) = n mod 256"
  by (simp add: unat_of_nat)

lemma le_value_pack_I:
  assumes "n < 2 ^ 32"
  shows "le_value (pack_I n) = n"
proof -
  define q1 where "q1 = n div 256"
  define q2 where "q2 = q1 div 256"
  define q3 where "q3 = q2 div 256"
  have d2: "n div 65536 = q2"
    unfolding q2_def q1_def using div_mult2_eq [of n 256 256] by simp
  have d3: "n div 16777216 = q3"
    unfolding q3_def q2_def q1_def
    using div_mult2_eq [of n 256 256] div_mult2_eq [of n 65536 256] by simp
  have "n < 256 * 16777216" using assms by simp
  then have "q3 < 256"
    unfolding d3 [symmetric] by (rule less_mult_imp_div_less)
  then have m3: "q3 mod 256 = q3" by simp
  define r1 where "r1 = n mod 256"
  define r2 where "r2 = q1 mod 256"
  define r3 where "r3 = q2 mod 256"
  have e1: "r1 + 256 * q1 = n" unfolding q1_def r1_def by simp
  have e2: "r2 + 256 * q2 = q1" unfolding q2_def r2_def by simp
  have e3: "r3 + 256 * q3 = q2" unfolding q3_def r3_def by simp
  have "le_value (pack_I n) =
      n mod 256 + 256 * (q1 mod 256 + 256 * (q2 mod 256 + 256 * (q3 mod 256)))"
    unfolding pack_I_def d2 d3 q1_def [symmetric]
    by (simp only: le_value.simps unat_byte_of_nat) simp
  also have "\<dots> = r1 + 256 * (r2 + 256 * (r3 + 256 * q3))"
    unfolding r1_def r2_def r3_def m3 ..
  also have "\<dots> = n" by (simp only: e1 e2 e3)
  finally show ?thesis .
qed

lemma unpack_I_pack_I: "n < 2 ^ 32 \<Longrightarrow> unpack_I (pack_I n) = Inr n"
  by (simp add: unpack_I_def length_pack_I le_value_pack_I)

lemma length_element_bytes: "length (element_bytes e) = 8 + length (snd e)"
  by (simp add: element_bytes_def length_pack_I)

lemma elements_loop_encoded:
  assumes "list_all well_formed_element es"
    and "drop off d = concat (map element_bytes es) @ rest"
  shows "elements_loop d (length es) off acc =
           Inr (off + length (concat (map element_bytes es)), acc @ es)"
  using assms
proof (induction es arbitrary: off acc)
  case Nil
  then show ?case by simp
next
  case (Cons e es)
  obtain a p where e: "e = (a, p)" by (cases e)
  from Cons.prems(1) have "well_formed_element e" and wfs: "list_all well_formed_element es"
    by simp_all
  then have wf: "a < 2 ^ 32" "length p < 2 ^ 32"
    by (simp_all add: e well_formed_element_def)
  define tl_bytes where "tl_bytes = concat (map element_bytes es) @ rest"
  have "element_bytes e = pack_I a @ pack_I (length p) @ p"
    by (simp add: e element_bytes_def)
  then have r: "drop off d = pack_I a @ pack_I (length p) @ p @ tl_bytes"
    using Cons.prems(2) by (simp add: tl_bytes_def)
  have h1: "py_slice d (Some (int off)) (Some (int (off + 4))) = pack_I a"
    using py_slice_window [of d off 4] by (simp add: r length_pack_I del: of_nat_add)
  have "drop (off + 4) d = drop 4 (drop off d)" by (simp add: add.commute)
  then have r4: "drop (off + 4) d = pack_I (length p) @ p @ tl_bytes"
    by (simp add: r length_pack_I)
  have h2: "py_slice d (Some (int (off + 4))) (Some (int (off + 8))) = pack_I (length p)"
    using py_slice_window [of d "off + 4" 4]
    by (simp add: r4 length_pack_I add.assoc del: of_nat_add)
  have "drop (off + 8) d = drop 4 (drop (off + 4) d)" by (simp add: add.commute)
  then have r8: "drop (off + 8) d = p @ tl_bytes"
    by (simp add: r4 length_pack_I)
  have h3: "py_slice d (Some (int (off + 8))) (Some (int (off + 8 + length p))) = p"
    using py_slice_window [of d "off + 8" "length p"] by (simp add: r8 del: of_nat_add)
  have "drop (off + 8 + length p) d = drop (length p) (drop (off + 8) d)"
    by (simp add: add.commute)
  then have rn: "drop (off + 8 + length p) d = concat (map element_bytes es) @ rest"
    by (simp add: r8 tl_bytes_def)
  have step: "elements_loop d (Suc (length es)) off acc =
      elements_loop d (length es) (off + 8 + length p) (acc @ [(a, p)])"
    by (simp add: h1 h2 h3 unpack_I_pack_I [OF wf(1)] unpack_I_pack_I [OF wf(2)]
        ebind_Inr Let_def del: of_nat_add)
  have len: "length (e # es) = Suc (length es)" by simp
  have res: "elements_loop d (length es) (off + 8 + length p) (acc @ [(a, p)]) =
      Inr (off + length (concat (map element_bytes (e # es))), acc @ e # es)"
    using Cons.IH [OF wfs rn, of "acc @ [(a, p)]"]
    by (simp add: e length_element_bytes)
  show ?case unfolding len step res ..
qed

lemma length_ascii: "length (ascii s) = length s"
  by (simp add: ascii_def)

lemma targets_loop_step:
  assumes wf: "well_formed_target t" and dr: "drop off d = target_bytes t @ rest"
  shows "targets_loop d (Suc i) off acc =
           targets_loop d i (off + length (target_bytes t)) (acc @ elements t)"
proof -
  define pre where "pre = ascii ''Target'' @ [alt_setting t] @ reserved t @ name t"
  define body where "body = concat (map element_bytes (elements t))"
  define hdr where "hdr = pre @ pack_I (size_field t) @ pack_I (length (elements t))"
  from wf have lr: "length (reserved t) = 4" and ln: "length (name t) = 255"
    and wfe: "list_all well_formed_element (elements t)"
    and le: "length (elements t) < 2 ^ 32"
    by (simp_all add: well_formed_target_def)
  have lpre: "length pre = 266" by (simp add: pre_def length_ascii lr ln)
  have lhdr: "length hdr = 274" by (simp add: hdr_def lpre length_pack_I)
  have tb: "target_bytes t = hdr @ body"
    by (simp add: target_bytes_def hdr_def pre_def body_def)
  have tp: "py_slice d (Some (int off)) (Some (int (off + 274))) = hdr"
    using py_slice_window [of d off 274] by (simp add: dr tb lhdr del: of_nat_add)
  have sig: "py_slice hdr (Some 0) (Some 6) = ascii ''Target''"
    by (simp add: py_slice_nonneg hdr_def pre_def length_ascii)
  have alt: "index hdr 6 = Inr (unat (alt_setting t))"
    by (simp add: index_def lhdr hdr_def pre_def nth_append length_ascii)
  have sz: "py_slice hdr (Some 266) (Some 270) = pack_I (size_field t)"
    by (simp add: py_slice_nonneg hdr_def lpre length_pack_I)
  have nb: "py_slice hdr (Some 270) (Some 274) = pack_I (length (elements t))"
    by (simp add: py_slice_nonneg hdr_def lpre length_pack_I)
  have usz: "unpack_I (pack_I (size_field t)) = Inr (le_value (pack_I (size_field t)))"
    by (simp add: unpack_I_def length_pack_I)
  have unb: "unpack_I (pack_I (length (elements t))) = Inr (length (elements t))"
    using le by (rule unpack_I_pack_I)
  have "drop (off + 274) d = drop 274 (drop off d)" by (simp add: add.commute)
  then have de: "drop (off + 274) d = concat (map element_bytes (elements t)) @ rest"
    by (simp add: dr tb lhdr body_def)
  have el: "elements_loop d (length (elements t)) (off + 274) acc =
      Inr (off + 274 + length body, acc @ elements t)"
    unfolding body_def by (rule elements_loop_encoded [OF wfe de])
  have ltb: "length (target_bytes t) = 274 + length body"
    by (simp add: tb lhdr)
  show ?thesis
    unfolding targets_loop.simps Let_def tp sig alt sz nb usz unb ebind_Inr el ltb
    by (simp add: add.assoc)
qed

lemma targets_loop_encoded:
  assumes "list_all well_formed_target ts"
    and "drop off d = concat (map target_bytes ts) @ rest"
  shows "targets_loop d (length ts + k) off acc =
           targets_loop d k (off + length (concat (map target_bytes ts)))
             (acc @ concat (map elements ts))"
  using assms
proof (induction ts arbitrary: off acc)
  case Nil
  then show ?case by simp
next
  case (Cons t ts)
  from Cons.prems(1) have wf: "well_formed_target t" and wfs: "list_all well_formed_target ts"
    by simp_all
  have dr: "drop off d = target_bytes t @ (concat (map target_bytes ts) @ rest)"
    using Cons.prems(2) by simp
  have "drop (off + length (target_bytes t)) d = drop (length (target_bytes t)) (drop off d)"
    by (simp add: add.commute)
  then have dn: "drop (off + length (target_bytes t)) d = concat (map target_bytes ts) @ rest"
    by (simp add: dr)
  have len: "length (t # ts) + k = Suc (length ts + k)" by simp
  have cat: "off + length (concat (map target_bytes (t # ts))) =
      off + length (target_bytes t) + length (concat (map target_bytes ts))"
    by simp
  have acc: "acc @ concat (map elements (t # ts)) = (acc @ elements t) @ concat (map elements ts)"
    by simp
  show ?case
    unfolding len cat acc targets_loop_step [OF wf dr]
    by (rule Cons.IH [OF wfs dn])
qed

lemma dfuse_bytes_parts:
  "take 5 (dfuse_bytes v img cnt body) = ascii ''DfuSe''"
  "dfuse_bytes v img cnt body ! 10 = of_nat cnt"
  "drop 11 (dfuse_bytes v img cnt body) = body"
  "length (dfuse_bytes v img cnt body) = 11 + length body"
  by (simp_all add: dfuse_bytes_def length_ascii length_pack_I nth_append)

lemma extract_dfuse_walk:
  assumes "take 5 (dfu_data self) = ascii ''DfuSe''" and "27 \<le> length (dfu_data self)"
  shows "extract self = targets_loop (dfu_data self) (unat (dfu_data self ! 10)) 11 []"
  using assms
  by (simp add: extract_DfuSe extract_dfuse_targets_def parse_prefix_eq ebind_Inr
      DFU_PREFIX_LENGTH_def)

lemma extract_encoded:
  assumes d: "dfu_data self = dfuse_bytes v img cnt (concat (map target_bytes ts) @ rest)"
    and cnt: "cnt < 256" and le: "length ts \<le> cnt"
    and wf: "list_all well_formed_target ts"
    and len: "27 \<le> length (dfu_data self)"
  shows "extract self =
           targets_loop (dfu_data self) (cnt - length ts)
             (11 + length (concat (map target_bytes ts))) (concat (map elements ts))"
proof -
  have t5: "take 5 (dfu_data self) = ascii ''DfuSe''" by (simp add: d dfuse_bytes_parts)
  have c: "unat (dfu_data self ! 10) = cnt"
    using cnt by (simp add: d dfuse_bytes_parts unat_of_nat)
  have dr: "drop 11 (dfu_data self) = concat (map target_bytes ts) @ rest"
    by (simp add: d dfuse_bytes_parts)
  have k: "cnt = length ts + (cnt - length ts)" using le by simp
  have "extract self = targets_loop (dfu_data self) (length ts + (cnt - length ts)) 11 []"
    using extract_dfuse_walk [OF t5 len] c k by simp
  then show ?thesis
    unfolding targets_loop_encoded [OF wf dr] by simp
qed

lemma targets_loop_header:
  assumes lh: "length hdr = 274" and sg: "take 6 hdr = ascii ''Target''"
    and dr: "drop off d = hdr @ rest"
  shows "targets_loop d (Suc i) off acc =
           ebind (elements_loop d (le_value (take 4 (drop 270 hdr))) (off + 274) acc)
             (\<lambda>(offset, tgts). targets_loop d i offset tgts)"
proof -
  have tp: "py_slice d (Some (int off)) (Some (int (off + 274))) = hdr"
    using py_slice_window [of d off 274] by (simp add: dr lh del: of_nat_add)
  have sig: "py_slice hdr (Some 0) (Some 6) = ascii ''Target''"
    by (simp add: py_slice_nonneg sg)
  have alt: "index hdr 6 = Inr (unat (hdr ! 6))"
    by (simp add: index_def lh)
  have sz: "unpack_I (py_slice hdr (Some 266) (Some 270)) =
      Inr (le_value (py_slice hdr (Some 266) (Some 270)))"
    by (simp add: unpack_I_def py_slice_nonneg lh)
  have nb: "unpack_I (py_slice hdr (Some 270) (Some 274)) = Inr (le_value (take 4 (drop 270 hdr)))"
    by (simp add: unpack_I_def py_slice_nonneg lh drop_take)
  show ?thesis
    unfolding targets_loop.simps Let_def tp sig alt sz nb ebind_Inr by simp
qed

lemma elements_loop_last:
  assumes la: "length a4 = 4" and ls: "length s4 = 4" and dr: "drop off d = a4 @ s4 @ p"
  shows "elements_loop d (Suc 0) off acc =
           Inr (off + 8 + le_value s4, acc @ [(le_value a4, take (le_value s4) p)])"
proof -
  have h1: "py_slice d (Some (int off)) (Some (int (off + 4))) = a4"
    using py_slice_window [of d off 4] by (simp add: dr la del: of_nat_add)
  have "drop (off + 4) d = drop 4 (drop off d)" by (simp add: add.commute)
  then have r4: "drop (off + 4) d = s4 @ p" by (simp add: dr la)
  have h2: "py_slice d (Some (int (off + 4))) (Some (int (off + 8))) = s4"
    using py_slice_window [of d "off + 4" 4] by (simp add: r4 ls add.assoc del: of_nat_add)
  have "drop (off + 8) d = drop 4 (drop (off + 4) d)" by (simp add: add.commute)
  then have r8: "drop (off + 8) d = p" by (simp add: r4 ls)
  have h3: "py_slice d (Some (int (off + 8))) (Some (int (off + 8 + n))) = take n p" for n
    using py_slice_window [of d "off + 8" n] by (simp add: r8 del: of_nat_add)
  have u1: "unpack_I a4 = Inr (le_value a4)" by (simp add: unpack_I_def la)
  have u2: "unpack_I s4 = Inr (le_value s4)" by (simp add: unpack_I_def ls)
  show ?thesis
    by (simp add: h1 h2 h3 u1 u2 ebind_Inr Let_def del: of_nat_add)
qed

section \<open>The target walk on a well-formed file\<close>

text \<open>
  C2. On a well-formed DfuSe file (the prefix with its target count, then each target as
  a 274-byte header signed "Target" followed by its elements, each element as address,
  size and exactly \<open>size\<close> payload bytes, then any trailing bytes such as the suffix)
  \<open>extract\<close> returns one pair of address and payload per element, over all targets, in
  file order. Reading them back from this layout is the walk advancing by 274 past each
  header and by 8 plus the size past each element.
\<close>

theorem extract_well_formed:
  assumes "dfu_data self = dfuse_bytes v img (length ts) (concat (map target_bytes ts) @ trailer)"
    and "length ts < 256" and "list_all well_formed_target ts"
    and "27 \<le> length (dfu_data self)"
  shows "extract self = Inr (concat (map elements ts))"
  using extract_encoded [OF assms(1) assms(2) order_refl assms(3) assms(4)] by simp

theorem extract_well_formed_witness:
  "extract (init (ascii ''DfuSe'' @ [0x01] @ [0x2E, 0x01, 0x00, 0x00] @ [0x01]
       @ ascii ''Target'' @ [0x00] @ [0x00, 0x00, 0x00, 0x00]
       @ (ascii ''ST'' @ replicate 253 0x00) @ [0x1C, 0x00, 0x00, 0x00] @ [0x02, 0x00, 0x00, 0x00]
       @ [0x00, 0x00, 0x00, 0x08] @ [0x04, 0x00, 0x00, 0x00] @ [0xDE, 0xAD, 0xBE, 0xEF]
       @ [0x04, 0x00, 0x00, 0x08] @ [0x08, 0x00, 0x00, 0x00] @ [1, 2, 3, 4, 5, 6, 7, 8]
       @ [0x00, 0x02, 0x11, 0xDF, 0x83, 0x04, 0x1A, 0x01, 0x55, 0x46, 0x44, 0x10,
          0x78, 0x56, 0x34, 0x12])) =
     Inr [(0x08000000, [0xDE, 0xAD, 0xBE, 0xEF]), (0x08000004, [1, 2, 3, 4, 5, 6, 7, 8])]"
  using extract_well_formed [of
      "init (ascii ''DfuSe'' @ [0x01] @ [0x2E, 0x01, 0x00, 0x00] @ [0x01]
       @ ascii ''Target'' @ [0x00] @ [0x00, 0x00, 0x00, 0x00]
       @ (ascii ''ST'' @ replicate 253 0x00) @ [0x1C, 0x00, 0x00, 0x00] @ [0x02, 0x00, 0x00, 0x00]
       @ [0x00, 0x00, 0x00, 0x08] @ [0x04, 0x00, 0x00, 0x00] @ [0xDE, 0xAD, 0xBE, 0xEF]
       @ [0x04, 0x00, 0x00, 0x08] @ [0x08, 0x00, 0x00, 0x00] @ [1, 2, 3, 4, 5, 6, 7, 8]
       @ [0x00, 0x02, 0x11, 0xDF, 0x83, 0x04, 0x1A, 0x01, 0x55, 0x46, 0x44, 0x10,
          0x78, 0x56, 0x34, 0x12])"
      "0x01" "0x12E"
      "[\<lparr>alt_setting = 0x00, reserved = [0x00, 0x00, 0x00, 0x00],
         name = ascii ''ST'' @ replicate 253 0x00, size_field = 0x1C,
         elements = [(0x08000000, [0xDE, 0xAD, 0xBE, 0xEF]),
                     (0x08000004, [1, 2, 3, 4, 5, 6, 7, 8])]\<rparr>]"
      "[0x00, 0x02, 0x11, 0xDF, 0x83, 0x04, 0x1A, 0x01, 0x55, 0x46, 0x44, 0x10,
        0x78, 0x56, 0x34, 0x12]"]
  by (simp add: init_def dfuse_bytes_def target_bytes_def element_bytes_def pack_I_def
      well_formed_target_def well_formed_element_def ascii_def)

section \<open>A truncated element\<close>

text \<open>
  C3. A DfuSe buffer whose final element declares more payload bytes than the buffer has
  left is required to fail. \<open>extract\<close> does not: the payload slice
  \<open>dfu_data[offset : offset + element_size]\<close> is clamped to the end of the buffer, and the
  bytes that are there come back as the payload. Here one target holds one element at
  0x08000000 that declares 8 bytes, and 3 bytes follow.
\<close>

theorem extract_truncated_payload:
  "extract (init (ascii ''DfuSe'' @ [0x01] @ [0x00, 0x00, 0x00, 0x00] @ [0x01]
       @ ascii ''Target'' @ [0x00] @ [0x00, 0x00, 0x00, 0x00]
       @ replicate 255 0x00 @ [0x10, 0x00, 0x00, 0x00] @ [0x01, 0x00, 0x00, 0x00]
       @ [0x00, 0x00, 0x00, 0x08] @ [0x08, 0x00, 0x00, 0x00] @ [0xDE, 0xAD, 0xBE])) =
     Inr [(0x08000000, [0xDE, 0xAD, 0xBE])]"
proof -
  define hdr :: "byte list" where "hdr = ascii ''Target'' @ [0x00] @ [0x00, 0x00, 0x00, 0x00]
       @ replicate 255 0x00 @ [0x10, 0x00, 0x00, 0x00] @ [0x01, 0x00, 0x00, 0x00]"
  define d :: "byte list" where "d = ascii ''DfuSe'' @ [0x01] @ [0x00, 0x00, 0x00, 0x00] @ [0x01]
       @ hdr @ [0x00, 0x00, 0x00, 0x08] @ [0x08, 0x00, 0x00, 0x00] @ [0xDE, 0xAD, 0xBE]"
  have lh: "length hdr = 274" by (simp add: hdr_def ascii_def)
  have sg: "take 6 hdr = ascii ''Target''" by (simp add: hdr_def ascii_def)
  have nb: "le_value (take 4 (drop 270 hdr)) = Suc 0" by (simp add: hdr_def ascii_def)
  have t5: "take 5 (dfu_data (init d)) = ascii ''DfuSe''" by (simp add: init_def d_def ascii_def)
  have ld: "27 \<le> length (dfu_data (init d))" by (simp add: init_def d_def lh ascii_def)
  have cnt: "unat (dfu_data (init d) ! 10) = Suc 0" by (simp add: init_def d_def ascii_def)
  have dr: "drop 11 d = hdr @ ([0x00, 0x00, 0x00, 0x08] @ [0x08, 0x00, 0x00, 0x00] @ [0xDE, 0xAD, 0xBE])"
    by (simp add: d_def ascii_def)
  have "drop (11 + 274) d = drop 274 (drop 11 d)" by (simp add: add.commute)
  then have de: "drop (11 + 274) d = [0x00, 0x00, 0x00, 0x08] @ [0x08, 0x00, 0x00, 0x00] @ [0xDE, 0xAD, 0xBE]"
    by (simp add: dr lh)
  have el: "elements_loop d (Suc 0) (11 + 274) [] = Inr (11 + 274 + 8 + 8, [(0x08000000, [0xDE, 0xAD, 0xBE])])"
    using elements_loop_last [OF _ _ de, of "[]"] by simp
  have "extract (init d) = targets_loop d (Suc 0) 11 []"
    using extract_dfuse_walk [OF t5 ld] by (simp only: cnt) (simp add: init_def)
  also have "\<dots> = Inr [(0x08000000, [0xDE, 0xAD, 0xBE])]"
    unfolding targets_loop_header [OF lh sg dr] nb el ebind_Inr by simp
  finally show ?thesis
    by (simp add: d_def hdr_def)
qed

section \<open>Independence from the metadata fields\<close>

lemma window_agree:
  assumes len: "length d' = length d"
    and eq: "\<And>i. a \<le> i \<Longrightarrow> i < a + n \<Longrightarrow> i < length d \<Longrightarrow> d' ! i = d ! i"
  shows "take n (drop a d') = take n (drop a d)"
proof (rule nth_equalityI)
  show "length (take n (drop a d')) = length (take n (drop a d))"
    using len by simp
next
  fix k
  assume "k < length (take n (drop a d'))"
  then have "k < n \<and> k < length d - a"
    using len by simp
  then have k: "k < n" "a + k < length d"
    by linarith+
  then have "d' ! (a + k) = d ! (a + k)"
    using eq [of "a + k"] by simp
  then show "take n (drop a d') ! k = take n (drop a d) ! k"
    using k len by simp
qed

lemma ebind_ignore_index:
  "ebind (index xs i) (\<lambda>_. F) = (if i < length xs then F else Inl IndexError)"
  by (simp add: index_def ebind_def)

lemma ebind_ignore_unpack_I:
  "ebind (unpack_I bs) (\<lambda>_. F) = (if length bs = 4 then F else Inl StructError)"
  by (simp add: unpack_I_def ebind_def)

lemma elements_loop_Suc:
  "elements_loop d (Suc j) a acc =
     ebind (unpack_I (take 4 (drop a d))) (\<lambda>x.
     ebind (unpack_I (take 4 (drop (a + 4) d))) (\<lambda>sz.
       elements_loop d j (a + 8 + sz) (acc @ [(x, take sz (drop (a + 8) d))])))"
proof -
  have h1: "py_slice d (Some (int a)) (Some (int (a + 4))) = take 4 (drop a d)"
    by (rule py_slice_window)
  have h2: "py_slice d (Some (int (a + 4))) (Some (int (a + 8))) = take 4 (drop (a + 4) d)"
    using py_slice_window [of d "a + 4" 4] by (simp add: add.assoc del: of_nat_add)
  have h3: "py_slice d (Some (int (a + 8))) (Some (int (a + 8 + n))) = take n (drop (a + 8) d)" for n
    by (rule py_slice_window)
  show ?thesis
    unfolding elements_loop.simps Let_def h1 h2 h3 ..
qed

lemma targets_loop_Suc:
  "targets_loop d (Suc i) off acc =
     (if take 6 (drop off d) \<noteq> ascii ''Target'' then Inl (InvalidTargetSignature off)
      else if length d - off \<le> 6 then Inl IndexError
      else if length d - off < 270 then Inl StructError
      else ebind (unpack_I (take 4 (drop (off + 270) d))) (\<lambda>nb.
           ebind (elements_loop d nb (off + 274) acc) (\<lambda>(offset, tgts).
             targets_loop d i offset tgts)))"
proof -
  define tp where "tp = take 274 (drop off d)"
  have tp: "py_slice d (Some (int off)) (Some (int (off + 274))) = tp"
    unfolding tp_def by (rule py_slice_window)
  have ltp: "length tp = min (length d - off) 274" by (simp add: tp_def)
  have sig: "py_slice tp (Some 0) (Some 6) = take 6 (drop off d)"
    by (simp add: py_slice_nonneg tp_def)
  have sz: "length (py_slice tp (Some 266) (Some 270)) = min (length d - off) 270 - 266"
    by (simp add: py_slice_nonneg ltp)
  have nb: "py_slice tp (Some 270) (Some 274) = take 4 (drop (off + 270) d)"
    by (simp add: py_slice_nonneg tp_def drop_take add.commute)
  show ?thesis
    unfolding targets_loop.simps Let_def tp sig nb ebind_ignore_index ebind_ignore_unpack_I sz ltp
    by (auto simp: unpack_I_def ebind_def)
qed

lemma header_offsets_loop_Suc:
  "header_offsets_loop d (Suc i) off =
     off #
     (if take 6 (drop off d) \<noteq> ascii ''Target'' \<or> length d - off < 270 then []
      else case ebind (unpack_I (take 4 (drop (off + 270) d))) (\<lambda>nb.
                  elements_loop d nb (off + 274) []) of
             Inl e \<Rightarrow> []
           | Inr (offset, tgts) \<Rightarrow> header_offsets_loop d i offset)"
proof -
  define tp where "tp = take 274 (drop off d)"
  have tp: "py_slice d (Some (int off)) (Some (int (off + 274))) = tp"
    unfolding tp_def by (rule py_slice_window)
  have ltp: "length tp = min (length d - off) 274" by (simp add: tp_def)
  have sig: "py_slice tp (Some 0) (Some 6) = take 6 (drop off d)"
    by (simp add: py_slice_nonneg tp_def)
  have sz: "length (py_slice tp (Some 266) (Some 270)) = min (length d - off) 270 - 266"
    by (simp add: py_slice_nonneg ltp)
  have nb: "py_slice tp (Some 270) (Some 274) = take 4 (drop (off + 270) d)"
    by (simp add: py_slice_nonneg tp_def drop_take add.commute)
  show ?thesis
    unfolding header_offsets_loop.simps Let_def tp sig nb ebind_ignore_index
      ebind_ignore_unpack_I sz ltp
    by (auto simp: unpack_I_def ebind_def)
qed

lemma elements_loop_Suc_Inr:
  assumes "elements_loop d (Suc j) a acc = Inr (b, r)"
  obtains x sz where "unpack_I (take 4 (drop a d)) = Inr x"
    and "unpack_I (take 4 (drop (a + 4) d)) = Inr sz"
    and "elements_loop d j (a + 8 + sz) (acc @ [(x, take sz (drop (a + 8) d))]) = Inr (b, r)"
  using assms unfolding elements_loop_Suc
  by (auto simp: ebind_def split: sum.splits)

lemma elements_loop_mono:
  "elements_loop d n a acc = Inr (b, r) \<Longrightarrow> a \<le> b"
proof (induction n arbitrary: a acc)
  case 0
  then show ?case by simp
next
  case (Suc j)
  from Suc.prems obtain x sz where
    "elements_loop d j (a + 8 + sz) (acc @ [(x, take sz (drop (a + 8) d))]) = Inr (b, r)"
    by (rule elements_loop_Suc_Inr)
  from Suc.IH [OF this] show ?case by simp
qed

lemma elements_loop_acc:
  "elements_loop d n a acc =
     (case elements_loop d n a [] of Inl e \<Rightarrow> Inl e | Inr (b, r) \<Rightarrow> Inr (b, acc @ r))"
proof (induction n arbitrary: a acc)
  case 0
  show ?case by simp
next
  case (Suc j)
  show ?case
  proof (cases "unpack_I (take 4 (drop a d))")
    case (Inl e)
    then show ?thesis unfolding elements_loop_Suc by (simp add: ebind_Inl)
  next
    case x: (Inr x)
    show ?thesis
    proof (cases "unpack_I (take 4 (drop (a + 4) d))")
      case (Inl e)
      then show ?thesis unfolding elements_loop_Suc x by (simp add: ebind_Inl ebind_Inr)
    next
      case sz: (Inr sz)
      define e where "e = (x, take sz (drop (a + 8) d))"
      have A: "elements_loop d j (a + 8 + sz) (acc @ [e]) =
          (case elements_loop d j (a + 8 + sz) [] of Inl e \<Rightarrow> Inl e
           | Inr (b, r) \<Rightarrow> Inr (b, (acc @ [e]) @ r))"
        by (rule Suc.IH)
      have B: "elements_loop d j (a + 8 + sz) [e] =
          (case elements_loop d j (a + 8 + sz) [] of Inl e \<Rightarrow> Inl e
           | Inr (b, r) \<Rightarrow> Inr (b, [e] @ r))"
        by (rule Suc.IH)
      have L: "elements_loop d (Suc j) a acc = elements_loop d j (a + 8 + sz) (acc @ [e])"
        unfolding elements_loop_Suc x sz ebind_Inr e_def ..
      have R: "elements_loop d (Suc j) a [] = elements_loop d j (a + 8 + sz) [e]"
        unfolding elements_loop_Suc x sz ebind_Inr e_def by simp
      show ?thesis
        unfolding L R A B by (simp split: sum.splits prod.splits)
    qed
  qed
qed

lemma elements_agree:
  assumes len: "length d' = length d"
    and eq: "\<And>i. a \<le> i \<Longrightarrow> i < length d \<Longrightarrow>
               (\<And>b r. elements_loop d n a acc = Inr (b, r) \<Longrightarrow> i < b) \<Longrightarrow> d' ! i = d ! i"
  shows "elements_loop d' n a acc = elements_loop d n a acc"
  using eq
proof (induction n arbitrary: a acc)
  case 0
  show ?case by simp
next
  case (Suc j)
  have early: "d' ! i = d ! i" if i: "a \<le> i" "i < a + 8" "i < length d" for i
  proof (rule Suc.prems [OF i(1) i(3)])
    fix b r
    assume "elements_loop d (Suc j) a acc = Inr (b, r)"
    then obtain x sz where
      "elements_loop d j (a + 8 + sz) (acc @ [(x, take sz (drop (a + 8) d))]) = Inr (b, r)"
      by (rule elements_loop_Suc_Inr)
    from elements_loop_mono [OF this] i show "i < b" by simp
  qed
  have w1: "take 4 (drop a d') = take 4 (drop a d)"
    by (rule window_agree [OF len]) (simp add: early)
  have w2: "take 4 (drop (a + 4) d') = take 4 (drop (a + 4) d)"
    by (rule window_agree [OF len]) (simp add: early)
  show ?case
  proof (cases "unpack_I (take 4 (drop a d))")
    case (Inl e)
    then show ?thesis unfolding elements_loop_Suc w1 by (simp add: ebind_Inl)
  next
    case x: (Inr x)
    show ?thesis
    proof (cases "unpack_I (take 4 (drop (a + 4) d))")
      case (Inl e)
      then show ?thesis unfolding elements_loop_Suc w1 w2 x by (simp add: ebind_Inl ebind_Inr)
    next
      case sz: (Inr sz)
      define acc2 where "acc2 = acc @ [(x, take sz (drop (a + 8) d))]"
      have step: "elements_loop d (Suc j) a acc = elements_loop d j (a + 8 + sz) acc2"
        unfolding elements_loop_Suc x sz ebind_Inr acc2_def ..
      have w3: "take sz (drop (a + 8) d') = take sz (drop (a + 8) d)"
      proof (rule window_agree [OF len])
        fix i
        assume i: "a + 8 \<le> i" "i < a + 8 + sz" "i < length d"
        show "d' ! i = d ! i"
        proof (rule Suc.prems)
          show "a \<le> i" using i by simp
          show "i < length d" by fact
          fix b r
          assume "elements_loop d (Suc j) a acc = Inr (b, r)"
          then have "elements_loop d j (a + 8 + sz) acc2 = Inr (b, r)" by (simp only: step)
          from elements_loop_mono [OF this] i show "i < b" by simp
        qed
      qed
      have step': "elements_loop d' (Suc j) a acc = elements_loop d' j (a + 8 + sz) acc2"
        unfolding elements_loop_Suc w1 w2 w3 x sz ebind_Inr acc2_def ..
      have rec: "elements_loop d' j (a + 8 + sz) acc2 = elements_loop d j (a + 8 + sz) acc2"
      proof (rule Suc.IH)
        fix i
        assume i: "a + 8 + sz \<le> i" "i < length d"
          and b: "\<And>b r. elements_loop d j (a + 8 + sz) acc2 = Inr (b, r) \<Longrightarrow> i < b"
        show "d' ! i = d ! i"
        proof (rule Suc.prems)
          show "a \<le> i" using i by simp
          show "i < length d" by fact
          fix b' r'
          assume "elements_loop d (Suc j) a acc = Inr (b', r')"
          then have "elements_loop d j (a + 8 + sz) acc2 = Inr (b', r')" by (simp only: step)
          then show "i < b'" by (rule b)
        qed
      qed
      show ?thesis unfolding step step' rec ..
    qed
  qed
qed

lemma header_offsets_tail:
  "h \<in> set (tl (header_offsets_loop d n off)) \<Longrightarrow> off + 274 \<le> h"
proof (induction n arbitrary: off)
  case 0
  then show ?case by simp
next
  case (Suc k)
  from Suc.prems have "\<exists>nb off2 t. elements_loop d nb (off + 274) [] = Inr (off2, t) \<and>
      h \<in> set (header_offsets_loop d k off2)"
    unfolding header_offsets_loop_Suc
    by (auto simp: ebind_def split: if_splits sum.splits prod.splits) metis
  then obtain nb off2 t where
    el: "elements_loop d nb (off + 274) [] = Inr (off2, t)"
    and h: "h \<in> set (header_offsets_loop d k off2)"
    by blast
  from elements_loop_mono [OF el] have o: "off + 274 \<le> off2" .
  show ?case
  proof (cases k)
    case 0
    with h show ?thesis by simp
  next
    case (Suc k')
    with h have "h = off2 \<or> h \<in> set (tl (header_offsets_loop d k off2))"
      by (simp add: header_offsets_loop_Suc)
    then show ?thesis
    proof
      assume "h = off2"
      with o show ?thesis by simp
    next
      assume "h \<in> set (tl (header_offsets_loop d k off2))"
      from Suc.IH [OF this] o show ?thesis by simp
    qed
  qed
qed

lemma header_offsets_ge:
  assumes "h \<in> set (header_offsets_loop d n off)"
  shows "off \<le> h"
proof (cases n)
  case 0
  with assms show ?thesis by simp
next
  case (Suc k)
  with assms have "h = off \<or> h \<in> set (tl (header_offsets_loop d n off))"
    by (simp add: header_offsets_loop_Suc)
  then show ?thesis
    using header_offsets_tail [of h d n off] by auto
qed

lemma walk_agree:
  assumes len: "length d' = length d"
    and eq: "\<And>i. off \<le> i \<Longrightarrow> i < length d \<Longrightarrow>
               (\<And>h. h \<in> set (header_offsets_loop d n off) \<Longrightarrow> \<not> (h + 6 \<le> i \<and> i < h + 270)) \<Longrightarrow>
               d' ! i = d ! i"
  shows "targets_loop d' n off acc = targets_loop d n off acc"
  using eq
proof (induction n arbitrary: off acc)
  case 0
  show ?case by simp
next
  case (Suc k)
  define H where "H = header_offsets_loop d (Suc k) off"
  have Hhd: "H = off # tl H"
    by (simp add: H_def header_offsets_loop_Suc)
  have tail: "off + 274 \<le> h" if "h \<in> set (tl H)" for h
    using that unfolding H_def by (rule header_offsets_tail)
  have mem: "h = off \<or> h \<in> set (tl H)" if "h \<in> set (header_offsets_loop d (Suc k) off)" for h
    using that Hhd unfolding H_def [symmetric] by (metis set_ConsD)
  have sigw: "take 6 (drop off d') = take 6 (drop off d)"
  proof (rule window_agree [OF len])
    fix i
    assume i: "off \<le> i" "i < off + 6" "i < length d"
    show "d' ! i = d ! i"
    proof (rule Suc.prems [OF i(1) i(3)])
      fix h
      assume "h \<in> set (header_offsets_loop d (Suc k) off)"
      from mem [OF this] show "\<not> (h + 6 \<le> i \<and> i < h + 270)"
      proof
        assume "h = off"
        then show ?thesis using i by simp
      next
        assume "h \<in> set (tl H)"
        from tail [OF this] show ?thesis using i by simp
      qed
    qed
  qed
  have nbw: "take 4 (drop (off + 270) d') = take 4 (drop (off + 270) d)"
  proof (rule window_agree [OF len])
    fix i
    assume i: "off + 270 \<le> i" "i < off + 270 + 4" "i < length d"
    show "d' ! i = d ! i"
    proof (rule Suc.prems)
      show "off \<le> i" using i by simp
      show "i < length d" by fact
      fix h
      assume "h \<in> set (header_offsets_loop d (Suc k) off)"
      from mem [OF this] show "\<not> (h + 6 \<le> i \<and> i < h + 270)"
      proof
        assume "h = off"
        then show ?thesis using i by simp
      next
        assume "h \<in> set (tl H)"
        from tail [OF this] show ?thesis using i by simp
      qed
    qed
  qed
  show ?case
  proof (cases "take 6 (drop off d) \<noteq> ascii ''Target'' \<or> length d - off < 270")
    case True
    then show ?thesis
      unfolding targets_loop_Suc sigw len by auto
  next
    case False
    then have ok: "take 6 (drop off d) = ascii ''Target''" "\<not> length d - off \<le> 6"
        "\<not> length d - off < 270"
      by auto
    show ?thesis
    proof (cases "unpack_I (take 4 (drop (off + 270) d))")
      case (Inl e)
      then show ?thesis
        unfolding targets_loop_Suc sigw nbw len using ok by (simp add: ebind_Inl)
    next
      case nb: (Inr nb)
      have Hform: "tl H = (case elements_loop d nb (off + 274) [] of Inl e \<Rightarrow> []
          | Inr (offset, tgts) \<Rightarrow> header_offsets_loop d k offset)"
        unfolding H_def header_offsets_loop_Suc using ok nb by (simp add: ebind_Inr)
      have el: "elements_loop d' nb (off + 274) acc = elements_loop d nb (off + 274) acc"
      proof (rule elements_agree [OF len])
        fix i
        assume i: "off + 274 \<le> i" "i < length d"
          and b: "\<And>b r. elements_loop d nb (off + 274) acc = Inr (b, r) \<Longrightarrow> i < b"
        show "d' ! i = d ! i"
        proof (rule Suc.prems)
          show "off \<le> i" using i by simp
          show "i < length d" by fact
          fix h
          assume "h \<in> set (header_offsets_loop d (Suc k) off)"
          from mem [OF this] show "\<not> (h + 6 \<le> i \<and> i < h + 270)"
          proof
            assume "h = off"
            then show ?thesis using i by simp
          next
            assume h: "h \<in> set (tl H)"
            show ?thesis
            proof (cases "elements_loop d nb (off + 274) []")
              case (Inl e)
              with h Hform show ?thesis by simp
            next
              case (Inr p)
              obtain b0 r0 where p: "p = (b0, r0)" by (cases p)
              have "elements_loop d nb (off + 274) acc = Inr (b0, acc @ r0)"
                using Inr p by (simp add: elements_loop_acc [of d nb "off + 274" acc])
              then have "i < b0" by (rule b)
              moreover have "h \<in> set (header_offsets_loop d k b0)"
                using h Hform Inr p by simp
              then have "b0 \<le> h" by (rule header_offsets_ge)
              ultimately show ?thesis by simp
            qed
          qed
        qed
      qed
      have step: "targets_loop d (Suc k) off acc =
          ebind (elements_loop d nb (off + 274) acc)
            (\<lambda>(offset, tgts). targets_loop d k offset tgts)"
        unfolding targets_loop_Suc using ok nb by (simp add: ebind_Inr)
      have step': "targets_loop d' (Suc k) off acc =
          ebind (elements_loop d nb (off + 274) acc)
            (\<lambda>(offset, tgts). targets_loop d' k offset tgts)"
        unfolding targets_loop_Suc sigw nbw len using ok nb by (simp add: ebind_Inr el)
      show ?thesis
      proof (cases "elements_loop d nb (off + 274) acc")
        case (Inl e)
        then show ?thesis unfolding step step' by (simp add: ebind_Inl)
      next
        case (Inr p)
        obtain b1 r1 where p: "p = (b1, r1)" by (cases p)
        have ea: "elements_loop d nb (off + 274) acc = Inr (b1, r1)" using Inr p by simp
        then obtain r0 where e0: "elements_loop d nb (off + 274) [] = Inr (b1, r0)"
          by (auto simp: elements_loop_acc [of d nb "off + 274" acc] split: sum.splits prod.splits)
        have ge: "off + 274 \<le> b1" using ea by (rule elements_loop_mono)
        have "targets_loop d' k b1 r1 = targets_loop d k b1 r1"
        proof (rule Suc.IH)
          fix i
          assume i: "b1 \<le> i" "i < length d"
            and nh: "\<And>h. h \<in> set (header_offsets_loop d k b1) \<Longrightarrow> \<not> (h + 6 \<le> i \<and> i < h + 270)"
          show "d' ! i = d ! i"
          proof (rule Suc.prems)
            show "off \<le> i" using i ge by simp
            show "i < length d" by fact
            fix h
            assume "h \<in> set (header_offsets_loop d (Suc k) off)"
            from mem [OF this] show "\<not> (h + 6 \<le> i \<and> i < h + 270)"
            proof
              assume "h = off"
              then show ?thesis using i ge by simp
            next
              assume "h \<in> set (tl H)"
              then have "h \<in> set (header_offsets_loop d k b1)"
                using Hform e0 by simp
              then show ?thesis by (rule nh)
            qed
          qed
        qed
        then show ?thesis unfolding step step' ea by (simp add: ebind_Inr)
      qed
    qed
  qed
qed

lemma extract_DfuSe_small:
  "take 5 (dfu_data self) = ascii ''DfuSe'' \<Longrightarrow> length (dfu_data self) < 27 \<Longrightarrow>
   extract self = Inl TooSmall"
  by (simp add: extract_DfuSe extract_dfuse_targets_def parse_prefix_def
      DFU_PREFIX_LENGTH_def DFU_SUFFIX_LENGTH_def ebind_Inl)

lemma target_header_offsets_ge:
  assumes "h \<in> set (target_header_offsets self)"
  shows "11 \<le> h"
  using assms header_offsets_ge [of h "dfu_data self" _ 11]
  by (auto simp: target_header_offsets_def DFU_PREFIX_LENGTH_def
      split: sum.splits option.splits)

text \<open>
  C10. The result of \<open>extract\<close> does not depend on the metadata-only bytes: the version
  and image size of the prefix, and the alternate setting, reserved bytes, name and size
  of every target header the walk reads. Two buffers of the same length that agree at
  every other position give the same result, be it a list of elements or an error.
\<close>

theorem extract_metadata_independent:
  assumes len: "length (dfu_data self') = length (dfu_data self)"
    and eq: "\<forall>i<length (dfu_data self). \<not> metadata_only self i \<longrightarrow>
               dfu_data self' ! i = dfu_data self ! i"
  shows "extract self' = extract self"
proof (cases "take 5 (dfu_data self) = ascii ''DfuSe''")
  case False
  then have "\<not> metadata_only self i" for i
    by (simp add: metadata_only_def py_slice_to_nonneg)
  with eq len have "dfu_data self' = dfu_data self"
    by (auto intro: nth_equalityI)
  then show ?thesis
    by (simp add: extract_def extract_dfuse_targets_def parse_prefix_def extract_raw_binary_def)
next
  case True
  define d where "d = dfu_data self"
  define d' where "d' = dfu_data self'"
  have len': "length d' = length d" using len by (simp add: d_def d'_def)
  have low: "d' ! i = d ! i" if i: "i < length d" "i < 5 \<or> i = 10" for i
  proof -
    have "\<not> list_ex (\<lambda>off. off + 6 \<le> i \<and> i < off + 270) (target_header_offsets self)"
    proof
      assume "list_ex (\<lambda>off. off + 6 \<le> i \<and> i < off + 270) (target_header_offsets self)"
      then obtain h where h: "h \<in> set (target_header_offsets self)" "h + 6 \<le> i"
        by (auto simp: list_ex_iff)
      from target_header_offsets_ge [OF h(1)] h(2) i(2) show False by auto
    qed
    then have "\<not> metadata_only self i"
      using i(2) by (auto simp: metadata_only_def)
    with eq i(1) show ?thesis by (simp add: d_def d'_def)
  qed
  have "take 5 (drop 0 d') = take 5 (drop 0 d)"
    by (rule window_agree [OF len']) (simp add: low)
  then have t5: "take 5 (dfu_data self') = ascii ''DfuSe''"
    using True by (simp add: d_def d'_def)
  show ?thesis
  proof (cases "length d < 27")
    case True
    then show ?thesis
      using extract_DfuSe_small [OF \<open>take 5 (dfu_data self) = ascii ''DfuSe''\<close>]
        extract_DfuSe_small [OF t5] len
      by (simp add: d_def)
  next
    case False
    then have l27: "27 \<le> length (dfu_data self)" "27 \<le> length (dfu_data self')"
      using len by (simp_all add: d_def)
    have c: "d' ! 10 = d ! 10" using False by (simp add: low)
    have e: "extract self = targets_loop d (unat (d ! 10)) 11 []"
      using extract_dfuse_walk [OF True l27(1)] by (simp add: d_def)
    have e': "extract self' = targets_loop d' (unat (d ! 10)) 11 []"
      using extract_dfuse_walk [OF t5 l27(2)] c by (simp add: d'_def)
    have tho: "target_header_offsets self = header_offsets_loop d (unat (d ! 10)) 11"
      using True by (simp add: target_header_offsets_def parse_prefix_eq [OF l27(1)]
          DFU_PREFIX_LENGTH_def d_def)
    have "targets_loop d' (unat (d ! 10)) 11 [] = targets_loop d (unat (d ! 10)) 11 []"
    proof (rule walk_agree [OF len'])
      fix i
      assume i: "11 \<le> i" "i < length d"
        and nh: "\<And>h. h \<in> set (header_offsets_loop d (unat (d ! 10)) 11) \<Longrightarrow>
                  \<not> (h + 6 \<le> i \<and> i < h + 270)"
      have "\<not> metadata_only self i"
        using i(1) nh by (auto simp: metadata_only_def list_ex_iff tho)
      with eq i(2) show "d' ! i = d ! i" by (simp add: d_def d'_def)
    qed
    then show ?thesis by (simp add: e e')
  qed
qed

theorem extract_metadata_independent_witness:
  "extract (init (ascii ''DfuSe'' @ [0x02] @ [0x2E, 0x99, 0x00, 0x00] @ [0x01]
       @ ascii ''Target'' @ [0x03] @ [0x00, 0x00, 0x00, 0x00]
       @ (ascii ''XT'' @ replicate 253 0x00) @ [0xFF, 0x00, 0x00, 0x00] @ [0x02, 0x00, 0x00, 0x00]
       @ [0x00, 0x00, 0x00, 0x08] @ [0x04, 0x00, 0x00, 0x00] @ [0xDE, 0xAD, 0xBE, 0xEF]
       @ [0x04, 0x00, 0x00, 0x08] @ [0x08, 0x00, 0x00, 0x00] @ [1, 2, 3, 4, 5, 6, 7, 8]
       @ replicate 16 0x00)) =
   extract (init (ascii ''DfuSe'' @ [0x01] @ [0x2E, 0x01, 0x00, 0x00] @ [0x01]
       @ ascii ''Target'' @ [0x00] @ [0x00, 0x00, 0x00, 0x00]
       @ (ascii ''ST'' @ replicate 253 0x00) @ [0x1C, 0x00, 0x00, 0x00] @ [0x02, 0x00, 0x00, 0x00]
       @ [0x00, 0x00, 0x00, 0x08] @ [0x04, 0x00, 0x00, 0x00] @ [0xDE, 0xAD, 0xBE, 0xEF]
       @ [0x04, 0x00, 0x00, 0x08] @ [0x08, 0x00, 0x00, 0x00] @ [1, 2, 3, 4, 5, 6, 7, 8]
       @ replicate 16 0x00)) \<and>
   extract (init (ascii ''DfuSe'' @ [0x01] @ [0x2E, 0x01, 0x00, 0x00] @ [0x01]
       @ ascii ''Target'' @ [0x00] @ [0x00, 0x00, 0x00, 0x00]
       @ (ascii ''ST'' @ replicate 253 0x00) @ [0x1C, 0x00, 0x00, 0x00] @ [0x02, 0x00, 0x00, 0x00]
       @ [0x00, 0x00, 0x00, 0x08] @ [0x04, 0x00, 0x00, 0x00] @ [0xDE, 0xAD, 0xBE, 0xEF]
       @ [0x04, 0x00, 0x00, 0x08] @ [0x08, 0x00, 0x00, 0x00] @ [1, 2, 3, 4, 5, 6, 7, 8]
       @ replicate 16 0x00)) =
     Inr [(0x08000000, [0xDE, 0xAD, 0xBE, 0xEF]), (0x08000004, [1, 2, 3, 4, 5, 6, 7, 8])]"
proof -
  define D :: "byte list" where "D = ascii ''DfuSe'' @ [0x01] @ [0x2E, 0x01, 0x00, 0x00] @ [0x01]
       @ ascii ''Target'' @ [0x00] @ [0x00, 0x00, 0x00, 0x00]
       @ (ascii ''ST'' @ replicate 253 0x00) @ [0x1C, 0x00, 0x00, 0x00] @ [0x02, 0x00, 0x00, 0x00]
       @ [0x00, 0x00, 0x00, 0x08] @ [0x04, 0x00, 0x00, 0x00] @ [0xDE, 0xAD, 0xBE, 0xEF]
       @ [0x04, 0x00, 0x00, 0x08] @ [0x08, 0x00, 0x00, 0x00] @ [1, 2, 3, 4, 5, 6, 7, 8]
       @ replicate 16 0x00"
  define D' :: "byte list" where "D' = ascii ''DfuSe'' @ [0x02] @ [0x2E, 0x99, 0x00, 0x00] @ [0x01]
       @ ascii ''Target'' @ [0x03] @ [0x00, 0x00, 0x00, 0x00]
       @ (ascii ''XT'' @ replicate 253 0x00) @ [0xFF, 0x00, 0x00, 0x00] @ [0x02, 0x00, 0x00, 0x00]
       @ [0x00, 0x00, 0x00, 0x08] @ [0x04, 0x00, 0x00, 0x00] @ [0xDE, 0xAD, 0xBE, 0xEF]
       @ [0x04, 0x00, 0x00, 0x08] @ [0x08, 0x00, 0x00, 0x00] @ [1, 2, 3, 4, 5, 6, 7, 8]
       @ replicate 16 0x00"
  have upd: "D' = D[5 := 0x02, 7 := 0x99, 17 := 0x03, 22 := 0x58, 277 := 0xFF]"
    by (simp add: D_def D'_def ascii_def list_update_append)
  have len: "length (dfu_data (init D')) = length (dfu_data (init D))"
    by (simp add: upd init_def)
  have l27: "27 \<le> length (dfu_data (init D))"
    by (simp add: init_def D_def ascii_def)
  have t5: "take 5 (dfu_data (init D)) = ascii ''DfuSe''"
    by (simp add: init_def D_def ascii_def)
  have cnt: "unat (dfu_data (init D) ! 10) = Suc 0"
    by (simp add: init_def D_def ascii_def)
  have "target_header_offsets (init D) = header_offsets_loop (dfu_data (init D)) (Suc 0) 11"
    unfolding target_header_offsets_def parse_prefix_eq [OF l27] t5 cnt
    by (simp add: DFU_PREFIX_LENGTH_def)
  then have hd: "target_header_offsets (init D) = 11 # tl (target_header_offsets (init D))"
    by simp
  have magic: "py_slice (dfu_data (init D)) None (Some 5) = ascii ''DfuSe''"
    using t5 by (simp add: py_slice_to_nonneg)
  have m: "metadata_only (init D) i" if "i = 5 \<or> i = 7 \<or> i = 17 \<or> i = 22 \<or> i = 277" for i
    unfolding metadata_only_def magic using that by (subst hd) auto
  have hyp: "\<forall>i<length (dfu_data (init D)). \<not> metadata_only (init D) i \<longrightarrow>
      dfu_data (init D') ! i = dfu_data (init D) ! i"
  proof (intro allI impI)
    fix i
    assume "\<not> metadata_only (init D) i"
    with m have "i \<noteq> 5" "i \<noteq> 7" "i \<noteq> 17" "i \<noteq> 22" "i \<noteq> 277" by auto
    then show "dfu_data (init D') ! i = dfu_data (init D) ! i"
      by (simp add: init_def upd)
  qed
  have a: "extract (init D') = extract (init D)"
    using extract_metadata_independent [of "init D'" "init D"] len hyp by simp
  have b: "extract (init D) =
      Inr [(0x08000000, [0xDE, 0xAD, 0xBE, 0xEF]), (0x08000004, [1, 2, 3, 4, 5, 6, 7, 8])]"
    using extract_encoded [of "init D" "0x01" "0x12E" 1
      "[\<lparr>alt_setting = 0x00, reserved = [0x00, 0x00, 0x00, 0x00],
         name = ascii ''ST'' @ replicate 253 0x00, size_field = 0x1C,
         elements = [(0x08000000, [0xDE, 0xAD, 0xBE, 0xEF]),
                     (0x08000004, [1, 2, 3, 4, 5, 6, 7, 8])]\<rparr>]"
      "replicate 16 0x00"]
    by (simp add: init_def D_def dfuse_bytes_def target_bytes_def element_bytes_def pack_I_def
        well_formed_target_def well_formed_element_def ascii_def)
  from a b show ?thesis
    unfolding D_def D'_def by simp
qed

section \<open>A target header with a wrong signature\<close>

lemma targets_loop_bad_signature:
  assumes "h \<in> set (header_offsets_loop d n off)"
    and bad: "take 6 (drop h d) \<noteq> ascii ''Target''"
  shows "targets_loop d n off acc = Inl (InvalidTargetSignature h)"
  using assms(1)
proof (induction n arbitrary: off acc)
  case 0
  then show ?case by simp
next
  case (Suc k)
  show ?case
  proof (cases "h = off")
    case True
    then show ?thesis unfolding targets_loop_Suc using bad by simp
  next
    case False
    with Suc.prems have "h \<in> set (tl (header_offsets_loop d (Suc k) off))"
      by (simp add: header_offsets_loop_Suc)
    then have "take 6 (drop off d) = ascii ''Target'' \<and> \<not> length d - off < 270 \<and>
        (\<exists>nb off2 t. unpack_I (take 4 (drop (off + 270) d)) = Inr nb \<and>
           elements_loop d nb (off + 274) [] = Inr (off2, t) \<and>
           h \<in> set (header_offsets_loop d k off2))"
      unfolding header_offsets_loop_Suc
      by (auto simp: ebind_def split: if_splits sum.splits prod.splits) metis
    then obtain nb off2 t where ok: "take 6 (drop off d) = ascii ''Target''"
        "\<not> length d - off < 270"
      and nb: "unpack_I (take 4 (drop (off + 270) d)) = Inr nb"
      and el: "elements_loop d nb (off + 274) [] = Inr (off2, t)"
      and h: "h \<in> set (header_offsets_loop d k off2)"
      by blast
    have el': "elements_loop d nb (off + 274) acc = Inr (off2, acc @ t)"
      using el by (simp add: elements_loop_acc [of d nb "off + 274" acc])
    show ?thesis
      unfolding targets_loop_Suc using ok
      by (simp add: nb el' ebind_Inr Suc.IH [OF h])
  qed
qed

lemma header_offsets_loop_step:
  assumes wf: "well_formed_target t" and dr: "drop off d = target_bytes t @ rest"
  shows "header_offsets_loop d (Suc i) off =
           off # header_offsets_loop d i (off + length (target_bytes t))"
proof -
  define pre where "pre = ascii ''Target'' @ [alt_setting t] @ reserved t @ name t
      @ pack_I (size_field t)"
  define body where "body = concat (map element_bytes (elements t))"
  from wf have lr: "length (reserved t) = 4" and ln: "length (name t) = 255"
    and wfe: "list_all well_formed_element (elements t)"
    and le: "length (elements t) < 2 ^ 32"
    by (simp_all add: well_formed_target_def)
  have lpre: "length pre = 270" by (simp add: pre_def length_ascii lr ln length_pack_I)
  have tb: "target_bytes t = pre @ pack_I (length (elements t)) @ body"
    by (simp add: target_bytes_def pre_def body_def)
  have ltb: "length (target_bytes t) = 274 + length body"
    by (simp add: tb lpre length_pack_I)
  have "length (drop off d) = length (target_bytes t) + length rest"
    by (simp add: dr)
  then have long: "\<not> length d - off < 270" using ltb by simp
  have sig: "take 6 (drop off d) = ascii ''Target''"
    by (simp add: dr tb pre_def length_ascii)
  have "drop (off + 270) d = drop 270 (drop off d)" by (simp add: add.commute)
  then have nb: "take 4 (drop (off + 270) d) = pack_I (length (elements t))"
    by (simp add: dr tb lpre length_pack_I)
  have "drop (off + 274) d = drop 274 (drop off d)" by (simp add: add.commute)
  then have de: "drop (off + 274) d = concat (map element_bytes (elements t)) @ rest"
    by (simp add: dr tb lpre length_pack_I body_def)
  have el: "elements_loop d (length (elements t)) (off + 274) [] =
      Inr (off + 274 + length body, elements t)"
    using elements_loop_encoded [OF wfe de, of "[]"] by (simp add: body_def)
  show ?thesis
    unfolding header_offsets_loop_Suc
    using long by (simp add: sig nb unpack_I_pack_I [OF le] ebind_Inr el ltb add.assoc)
qed

lemma header_offsets_loop_encoded:
  assumes "list_all well_formed_target ts"
    and "drop off d = concat (map target_bytes ts) @ rest"
  shows "off + length (concat (map target_bytes ts)) \<in>
           set (header_offsets_loop d (length ts + Suc k) off)"
  using assms
proof (induction ts arbitrary: off)
  case Nil
  then show ?case by simp
next
  case (Cons t ts)
  from Cons.prems(1) have wf: "well_formed_target t" and wfs: "list_all well_formed_target ts"
    by simp_all
  have dr: "drop off d = target_bytes t @ (concat (map target_bytes ts) @ rest)"
    using Cons.prems(2) by simp
  have "drop (off + length (target_bytes t)) d = drop (length (target_bytes t)) (drop off d)"
    by (simp add: add.commute)
  then have dn: "drop (off + length (target_bytes t)) d = concat (map target_bytes ts) @ rest"
    by (simp add: dr)
  have len: "length (t # ts) + Suc k = Suc (length ts + Suc k)" by simp
  have cat: "off + length (concat (map target_bytes (t # ts))) =
      off + length (target_bytes t) + length (concat (map target_bytes ts))"
    by simp
  show ?case
    unfolding len cat header_offsets_loop_step [OF wf dr]
    using Cons.IH [OF wfs dn] by simp
qed

lemma target_header_offsets_encoded:
  assumes d: "dfu_data self = dfuse_bytes v img cnt (concat (map target_bytes ts) @ rest)"
    and lt: "length ts < cnt" and cnt: "cnt < 256"
    and wf: "list_all well_formed_target ts"
    and len: "27 \<le> length (dfu_data self)"
  shows "11 + length (concat (map target_bytes ts)) \<in> set (target_header_offsets self)"
proof -
  have t5: "take 5 (dfu_data self) = ascii ''DfuSe''" by (simp add: d dfuse_bytes_parts)
  have c: "unat (dfu_data self ! 10) = cnt"
    using cnt by (simp add: d dfuse_bytes_parts unat_of_nat)
  have dr: "drop 11 (dfu_data self) = concat (map target_bytes ts) @ rest"
    by (simp add: d dfuse_bytes_parts)
  from lt obtain k where "cnt = Suc (length ts + k)"
    unfolding less_iff_Suc_add by blast
  then have k: "cnt = length ts + Suc k" by simp
  have tho: "target_header_offsets self = header_offsets_loop (dfu_data self) cnt 11"
    unfolding target_header_offsets_def parse_prefix_eq [OF len] t5 c
    by (simp add: DFU_PREFIX_LENGTH_def)
  show ?thesis
    unfolding tho k by (rule header_offsets_loop_encoded [OF wf dr])
qed

text \<open>
  C4. Whenever the walk reaches a target header, at offset \<open>off\<close>, whose first 6 bytes are
  not "Target", \<open>extract\<close> raises the invalid-target-signature error carrying \<open>off\<close>. The
  offsets the walk reaches are those of \<open>target_header_offsets\<close>: offset 11 when the prefix
  counts a target, and the end of each target walked while the count says more follow.
\<close>

theorem extract_invalid_target_signature:
  assumes "off \<in> set (target_header_offsets self)"
    and "take 6 (drop off (dfu_data self)) \<noteq> ascii ''Target''"
  shows "extract self = Inl (InvalidTargetSignature off)"
proof -
  from assms(1) have "\<exists>prefix. parse_prefix self = Inr (Some prefix) \<and>
      off \<in> set (header_offsets_loop (dfu_data self) (bTargets prefix) DFU_PREFIX_LENGTH)"
    by (cases "parse_prefix self")
      (auto simp: target_header_offsets_def split: option.splits)
  then obtain prefix where pp: "parse_prefix self = Inr (Some prefix)"
    and mem: "off \<in> set (header_offsets_loop (dfu_data self) (bTargets prefix) DFU_PREFIX_LENGTH)"
    by blast
  have l27: "27 \<le> length (dfu_data self)"
  proof (rule ccontr)
    assume "\<not> 27 \<le> length (dfu_data self)"
    then have "parse_prefix self = Inl TooSmall"
      by (simp add: parse_prefix_def DFU_PREFIX_LENGTH_def DFU_SUFFIX_LENGTH_def)
    with pp show False by simp
  qed
  have t5: "take 5 (dfu_data self) = ascii ''DfuSe''"
    using pp parse_prefix_eq [OF l27] by (simp split: if_splits)
  have "extract self = targets_loop (dfu_data self) (bTargets prefix) DFU_PREFIX_LENGTH []"
    by (simp add: extract_DfuSe [OF t5] extract_dfuse_targets_def pp ebind_Inr)
  then show ?thesis
    by (simp add: targets_loop_bad_signature [OF mem assms(2)])
qed

theorem extract_invalid_target_signature_witness:
  "extract (init (ascii ''DfuSe'' @ [0x01] @ [0x00, 0x00, 0x00, 0x00] @ [0x02]
       @ ascii ''Target'' @ [0x00] @ [0x00, 0x00, 0x00, 0x00]
       @ replicate 255 0x00 @ [0x0C, 0x00, 0x00, 0x00] @ [0x01, 0x00, 0x00, 0x00]
       @ [0x00, 0x00, 0x00, 0x08] @ [0x04, 0x00, 0x00, 0x00] @ [0xDE, 0xAD, 0xBE, 0xEF]
       @ ascii ''Targex'' @ replicate 268 0x00 @ replicate 16 0x00)) =
     Inl (InvalidTargetSignature 297) \<and>
   extract (init (ascii ''DfuSe'' @ [0x01] @ [0x00, 0x00, 0x00, 0x00] @ [0x01]
       @ ascii ''target'' @ replicate 268 0x00 @ replicate 16 0x00)) =
     Inl (InvalidTargetSignature 11)"
proof
  define DB :: "byte list" where "DB = ascii ''DfuSe'' @ [0x01] @ [0x00, 0x00, 0x00, 0x00] @ [0x02]
       @ ascii ''Target'' @ [0x00] @ [0x00, 0x00, 0x00, 0x00]
       @ replicate 255 0x00 @ [0x0C, 0x00, 0x00, 0x00] @ [0x01, 0x00, 0x00, 0x00]
       @ [0x00, 0x00, 0x00, 0x08] @ [0x04, 0x00, 0x00, 0x00] @ [0xDE, 0xAD, 0xBE, 0xEF]
       @ ascii ''Targex'' @ replicate 268 0x00 @ replicate 16 0x00"
  have mB: "297 \<in> set (target_header_offsets (init DB))"
    using target_header_offsets_encoded [of "init DB" "0x01" 0 2
      "[\<lparr>alt_setting = 0x00, reserved = [0x00, 0x00, 0x00, 0x00],
         name = replicate 255 0x00, size_field = 0x0C,
         elements = [(0x08000000, [0xDE, 0xAD, 0xBE, 0xEF])]\<rparr>]"
      "ascii ''Targex'' @ replicate 268 0x00 @ replicate 16 0x00"]
    by (simp add: init_def DB_def dfuse_bytes_def target_bytes_def element_bytes_def pack_I_def
        well_formed_target_def well_formed_element_def ascii_def)
  have sB: "take 6 (drop 297 (dfu_data (init DB))) \<noteq> ascii ''Target''"
    by (simp add: init_def DB_def ascii_def)
  show "extract (init (ascii ''DfuSe'' @ [0x01] @ [0x00, 0x00, 0x00, 0x00] @ [0x02]
       @ ascii ''Target'' @ [0x00] @ [0x00, 0x00, 0x00, 0x00]
       @ replicate 255 0x00 @ [0x0C, 0x00, 0x00, 0x00] @ [0x01, 0x00, 0x00, 0x00]
       @ [0x00, 0x00, 0x00, 0x08] @ [0x04, 0x00, 0x00, 0x00] @ [0xDE, 0xAD, 0xBE, 0xEF]
       @ ascii ''Targex'' @ replicate 268 0x00 @ replicate 16 0x00)) =
     Inl (InvalidTargetSignature 297)"
    using extract_invalid_target_signature [OF mB sB] by (simp add: DB_def)
next
  define DA :: "byte list" where "DA = ascii ''DfuSe'' @ [0x01] @ [0x00, 0x00, 0x00, 0x00] @ [0x01]
       @ ascii ''target'' @ replicate 268 0x00 @ replicate 16 0x00"
  have mA: "11 \<in> set (target_header_offsets (init DA))"
    using target_header_offsets_encoded [of "init DA" "0x01" 0 1 "[]"
      "ascii ''target'' @ replicate 268 0x00 @ replicate 16 0x00"]
    by (simp add: init_def DA_def dfuse_bytes_def pack_I_def ascii_def)
  have sA: "take 6 (drop 11 (dfu_data (init DA))) \<noteq> ascii ''Target''"
    by (simp add: init_def DA_def ascii_def)
  show "extract (init (ascii ''DfuSe'' @ [0x01] @ [0x00, 0x00, 0x00, 0x00] @ [0x01]
       @ ascii ''target'' @ replicate 268 0x00 @ replicate 16 0x00)) =
     Inl (InvalidTargetSignature 11)"
    using extract_invalid_target_signature [OF mA sA] by (simp add: DA_def)
qed

section \<open>The dispatcher\<close>

text \<open>
  C8. \<open>extract\<close> chooses its path by the first 5 bytes of the buffer alone and returns what
  that path computes. When they are not "DfuSe" it is the raw extraction: the single pair
  of address 0 and the buffer without its last 16 bytes. When they are "DfuSe" it is the
  target walk: the too-small error on fewer than 27 bytes, otherwise the walk from offset
  11 over as many targets as byte 10 counts, which raises the invalid-target-signature
  error with offset 11 when a first target is counted and the 6 bytes there are not
  "Target", and which on a file laid out as the format table has it yields the elements
  of all targets in file order. The result is a function of the buffer: a parser object
  holding the same buffer gives the same result whatever its \<open>targets\<close> field holds,
  since the walk collects into a local list that starts empty at each call.
\<close>

theorem extract_dispatch:
  "(take 5 (dfu_data self) \<noteq> ascii ''DfuSe'' \<longrightarrow>
      extract self = Inr [(0, take (length (dfu_data self) - 16) (dfu_data self))]) \<and>
   (take 5 (dfu_data self) = ascii ''DfuSe'' \<and> length (dfu_data self) < 27 \<longrightarrow>
      extract self = Inl TooSmall) \<and>
   (take 5 (dfu_data self) = ascii ''DfuSe'' \<and> 27 \<le> length (dfu_data self) \<longrightarrow>
      extract self = targets_loop (dfu_data self) (unat (dfu_data self ! 10)) 11 []) \<and>
   (take 5 (dfu_data self) = ascii ''DfuSe'' \<and> 27 \<le> length (dfu_data self) \<and>
    dfu_data self ! 10 \<noteq> 0 \<and> take 6 (drop 11 (dfu_data self)) \<noteq> ascii ''Target'' \<longrightarrow>
      extract self = Inl (InvalidTargetSignature 11)) \<and>
   (dfu_data self = dfuse_bytes v img (length ts) (concat (map target_bytes ts) @ trailer) \<and>
    length ts < 256 \<and> list_all well_formed_target ts \<and> 16 \<le> length trailer \<longrightarrow>
      extract self = Inr (concat (map elements ts))) \<and>
   (dfu_data self' = dfu_data self \<longrightarrow> extract self' = extract self)"
proof (intro conjI impI)
  assume "take 5 (dfu_data self) \<noteq> ascii ''DfuSe''"
  then show "extract self = Inr [(0, take (length (dfu_data self) - 16) (dfu_data self))]"
    by (rule extract_not_DfuSe)
next
  assume "take 5 (dfu_data self) = ascii ''DfuSe'' \<and> length (dfu_data self) < 27"
  then show "extract self = Inl TooSmall"
    by (simp add: extract_DfuSe_small)
next
  assume "take 5 (dfu_data self) = ascii ''DfuSe'' \<and> 27 \<le> length (dfu_data self)"
  then show "extract self = targets_loop (dfu_data self) (unat (dfu_data self ! 10)) 11 []"
    by (simp add: extract_dfuse_walk)
next
  assume a: "take 5 (dfu_data self) = ascii ''DfuSe'' \<and> 27 \<le> length (dfu_data self) \<and>
    dfu_data self ! 10 \<noteq> 0 \<and> take 6 (drop 11 (dfu_data self)) \<noteq> ascii ''Target''"
  then have "unat (dfu_data self ! 10) \<noteq> 0" by (simp add: unat_eq_0)
  then obtain k where k: "unat (dfu_data self ! 10) = Suc k"
    by (cases "unat (dfu_data self ! 10)") simp_all
  from a have e: "extract self = targets_loop (dfu_data self) (unat (dfu_data self ! 10)) 11 []"
    by (simp add: extract_dfuse_walk)
  show "extract self = Inl (InvalidTargetSignature 11)"
    unfolding e k targets_loop_Suc using a by simp
next
  assume a: "dfu_data self = dfuse_bytes v img (length ts) (concat (map target_bytes ts) @ trailer) \<and>
    length ts < 256 \<and> list_all well_formed_target ts \<and> 16 \<le> length trailer"
  then have "27 \<le> length (dfu_data self)" by (simp add: dfuse_bytes_parts)
  with a show "extract self = Inr (concat (map elements ts))"
    using extract_encoded [of self v img "length ts" ts trailer] by simp
next
  assume "dfu_data self' = dfu_data self"
  then show "extract self' = extract self"
    by (simp add: extract_def extract_dfuse_targets_def parse_prefix_def extract_raw_binary_def)
qed

theorem extract_dispatch_witness:
  "extract (init (ascii ''Hello, firmware'' @ replicate 16 0x00)) =
     Inr [(0, ascii ''Hello, firmware'')] \<and>
   extract (init (ascii ''DfuSe'' @ replicate 21 0x00)) = Inl TooSmall \<and>
   extract (init (ascii ''DfuSe'' @ [0x01] @ [0x00, 0x00, 0x00, 0x00] @ [0x01]
       @ ascii ''TARGET'' @ replicate 268 0x00 @ replicate 16 0xFF)) =
     Inl (InvalidTargetSignature 11) \<and>
   extract \<lparr>dfu_data = ascii ''DfuSe'' @ [0x01] @ [0x00, 0x00, 0x00, 0x00] @ [0x02]
       @ ascii ''Target'' @ [0x00] @ [0x00, 0x00, 0x00, 0x00]
       @ (ascii ''Flash'' @ replicate 250 0x00) @ [0x0A, 0x00, 0x00, 0x00] @ [0x01, 0x00, 0x00, 0x00]
       @ [0x00, 0x00, 0x00, 0x08] @ [0x02, 0x00, 0x00, 0x00] @ [0xAA, 0xBB]
       @ ascii ''Target'' @ [0x01] @ [0x00, 0x00, 0x00, 0x00]
       @ (ascii ''OTP'' @ replicate 252 0x00) @ [0x0B, 0x00, 0x00, 0x00] @ [0x01, 0x00, 0x00, 0x00]
       @ [0x00, 0x78, 0xFF, 0x1F] @ [0x03, 0x00, 0x00, 0x00] @ [0x01, 0x02, 0x03]
       @ replicate 16 0xFF,
     targets = [(7, [9])]\<rparr> =
     Inr [(0x08000000, [0xAA, 0xBB]), (0x1FFF7800, [0x01, 0x02, 0x03])] \<and>
   extract \<lparr>dfu_data = ascii ''DfuSe'' @ replicate 21 0x00, targets = [(7, [9])]\<rparr> =
     extract (init (ascii ''DfuSe'' @ replicate 21 0x00))"
proof (intro conjI)
  show "extract (init (ascii ''Hello, firmware'' @ replicate 16 0x00)) =
     Inr [(0, ascii ''Hello, firmware'')]"
    using extract_dispatch [of "init (ascii ''Hello, firmware'' @ replicate 16 0x00)" 0 0 "[]" "[]"
        "init (ascii ''Hello, firmware'' @ replicate 16 0x00)", THEN conjunct1]
    by (simp add: init_def ascii_def)
  show "extract (init (ascii ''DfuSe'' @ replicate 21 0x00)) = Inl TooSmall"
    using extract_dispatch [of "init (ascii ''DfuSe'' @ replicate 21 0x00)" 0 0 "[]" "[]"
        "init (ascii ''DfuSe'' @ replicate 21 0x00)", THEN conjunct2, THEN conjunct1]
    by (simp add: init_def ascii_def)
  show "extract (init (ascii ''DfuSe'' @ [0x01] @ [0x00, 0x00, 0x00, 0x00] @ [0x01]
       @ ascii ''TARGET'' @ replicate 268 0x00 @ replicate 16 0xFF)) =
     Inl (InvalidTargetSignature 11)"
    using extract_dispatch [of "init (ascii ''DfuSe'' @ [0x01] @ [0x00, 0x00, 0x00, 0x00] @ [0x01]
       @ ascii ''TARGET'' @ replicate 268 0x00 @ replicate 16 0xFF)" 0 0 "[]" "[]" "init []",
        THEN conjunct2, THEN conjunct2, THEN conjunct2, THEN conjunct1]
    by (simp add: init_def ascii_def)
  show "extract \<lparr>dfu_data = ascii ''DfuSe'' @ [0x01] @ [0x00, 0x00, 0x00, 0x00] @ [0x02]
       @ ascii ''Target'' @ [0x00] @ [0x00, 0x00, 0x00, 0x00]
       @ (ascii ''Flash'' @ replicate 250 0x00) @ [0x0A, 0x00, 0x00, 0x00] @ [0x01, 0x00, 0x00, 0x00]
       @ [0x00, 0x00, 0x00, 0x08] @ [0x02, 0x00, 0x00, 0x00] @ [0xAA, 0xBB]
       @ ascii ''Target'' @ [0x01] @ [0x00, 0x00, 0x00, 0x00]
       @ (ascii ''OTP'' @ replicate 252 0x00) @ [0x0B, 0x00, 0x00, 0x00] @ [0x01, 0x00, 0x00, 0x00]
       @ [0x00, 0x78, 0xFF, 0x1F] @ [0x03, 0x00, 0x00, 0x00] @ [0x01, 0x02, 0x03]
       @ replicate 16 0xFF,
     targets = [(7, [9])]\<rparr> =
     Inr [(0x08000000, [0xAA, 0xBB]), (0x1FFF7800, [0x01, 0x02, 0x03])]"
    using extract_dispatch [of
      "\<lparr>dfu_data = ascii ''DfuSe'' @ [0x01] @ [0x00, 0x00, 0x00, 0x00] @ [0x02]
       @ ascii ''Target'' @ [0x00] @ [0x00, 0x00, 0x00, 0x00]
       @ (ascii ''Flash'' @ replicate 250 0x00) @ [0x0A, 0x00, 0x00, 0x00] @ [0x01, 0x00, 0x00, 0x00]
       @ [0x00, 0x00, 0x00, 0x08] @ [0x02, 0x00, 0x00, 0x00] @ [0xAA, 0xBB]
       @ ascii ''Target'' @ [0x01] @ [0x00, 0x00, 0x00, 0x00]
       @ (ascii ''OTP'' @ replicate 252 0x00) @ [0x0B, 0x00, 0x00, 0x00] @ [0x01, 0x00, 0x00, 0x00]
       @ [0x00, 0x78, 0xFF, 0x1F] @ [0x03, 0x00, 0x00, 0x00] @ [0x01, 0x02, 0x03]
       @ replicate 16 0xFF,
        targets = [(7, [9])]\<rparr>"
      "0x01" 0
      "[\<lparr>alt_setting = 0x00, reserved = [0x00, 0x00, 0x00, 0x00],
         name = ascii ''Flash'' @ replicate 250 0x00, size_field = 0x0A,
         elements = [(0x08000000, [0xAA, 0xBB])]\<rparr>,
        \<lparr>alt_setting = 0x01, reserved = [0x00, 0x00, 0x00, 0x00],
         name = ascii ''OTP'' @ replicate 252 0x00, size_field = 0x0B,
         elements = [(0x1FFF7800, [0x01, 0x02, 0x03])]\<rparr>]"
      "replicate 16 0xFF"
      "init []", THEN conjunct2, THEN conjunct2, THEN conjunct2, THEN conjunct2, THEN conjunct1]
    by (simp add: dfuse_bytes_def target_bytes_def element_bytes_def pack_I_def
        well_formed_target_def well_formed_element_def ascii_def)
  show "extract \<lparr>dfu_data = ascii ''DfuSe'' @ replicate 21 0x00, targets = [(7, [9])]\<rparr> =
     extract (init (ascii ''DfuSe'' @ replicate 21 0x00))"
    using extract_dispatch [of "init (ascii ''DfuSe'' @ replicate 21 0x00)" 0 0 "[]" "[]"
        "\<lparr>dfu_data = ascii ''DfuSe'' @ replicate 21 0x00, targets = [(7, [9])]\<rparr>",
        THEN conjunct2, THEN conjunct2, THEN conjunct2, THEN conjunct2, THEN conjunct2]
    by (simp add: init_def)
qed

end
